theory Spec2Isabelle
  imports Main
begin

section \<open>Machine integers, errors and pointers\<close>

text \<open>
  The program is written for an LP64 platform: \<open>size_t\<close> is an unsigned 64-bit integer,
  \<open>long long\<close> a signed 64-bit integer and \<open>sizeof(void*)\<close> is 8. Values of \<open>size_t\<close> are
  modelled as natural numbers (every input below \<open>2 ^ 64\<close>), values of \<open>long long\<close> as
  integers. The two conversions on which the control flow of the program relies are written
  out: \<open>to_ll\<close> reads the low 64 bits of an integer as a two's complement number (the
  conversion of a \<open>size_t\<close> to \<open>long long\<close>), \<open>to_size_t\<close> reads them as an unsigned
  number, and \<open>size_t_sub\<close>, \<open>size_t_add\<close> and \<open>size_t_mul\<close> are the wrapping
  operations of \<open>size_t\<close>. The sums and differences of \<open>long long\<close> values in the source
  are written \<open>to_ll (a + b)\<close> and \<open>to_ll (a - b)\<close>: the sum or difference itself
  whenever that fits (\<open>fits_ll\<close>), and otherwise the two's complement wrap-around that the
  compiled program computes, the language leaving the overflow undefined.
\<close>

definition to_ll :: "int \<Rightarrow> int" where
  "to_ll x = (x + 2 ^ 63) mod 2 ^ 64 - 2 ^ 63"

definition fits_ll :: "int \<Rightarrow> bool" where
  "fits_ll x = (- (2 ^ 63) \<le> x \<and> x < 2 ^ 63)"

definition to_size_t :: "int \<Rightarrow> nat" where
  "to_size_t x = nat (x mod 2 ^ 64)"

definition size_t_sub :: "nat \<Rightarrow> nat \<Rightarrow> nat" where
  "size_t_sub a b = (if b \<le> a then a - b else a + 2 ^ 64 - b)"

definition size_t_add :: "nat \<Rightarrow> nat \<Rightarrow> nat" where
  "size_t_add a b = (a + b) mod 2 ^ 64"

definition size_t_mul :: "nat \<Rightarrow> nat \<Rightarrow> nat" where
  "size_t_mul a b = (a * b) mod 2 ^ 64"

text \<open>Division of \<open>long long\<close> truncates towards zero.\<close>

definition ll_div :: "int \<Rightarrow> int \<Rightarrow> int" where
  "ll_div a b = (if (a < 0) = (b < 0) then \<bar>a\<bar> div \<bar>b\<bar> else - (\<bar>a\<bar> div \<bar>b\<bar>))"

definition LLONG_MAX :: int where
  "LLONG_MAX = 2 ^ 63 - 1"

definition sizeof_ptr :: nat where
  "sizeof_ptr = 8"

definition KB :: nat where
  "KB = 1024"

text \<open>
  No object can be larger than \<open>PTRDIFF_MAX\<close> bytes, so \<open>std::vector<void *> buffer(size)\<close>
  throws (\<open>std::length_error\<close> or \<open>std::bad_alloc\<close>) when \<open>size\<close> exceeds
  \<open>PTRDIFF_MAX / sizeof(void*)\<close>, and so does \<open>times.reserve(nTouches)\<close> on the vector of
  \<open>long long\<close>, whose elements have the same size. Nothing catches the exception: the
  process terminates.
\<close>

definition vector_max_size :: nat where
  "vector_max_size = 2 ^ 60 - 1"

text \<open>
  The ways in which a call can fail to return a value: a failed \<open>assert\<close>, a failed
  allocation, and the three kinds of undefined behaviour the source can reach (an index or
  iterator outside its vector, a dereferenced null pointer, the dereferenced end iterator
  that \<open>std::max_element\<close> returns for an empty range).
\<close>

datatype error = AssertionFailed | AllocFailed | OutOfBounds | NullDeref | EmptyRange

text \<open>
  A slot of the buffer holds a \<open>void *\<close>: the null pointer of value initialisation, or the
  address \<open>&buffer[k]\<close> of a slot of the same buffer, represented by the index \<open>k\<close>.
\<close>

datatype ptr = Null | Slot nat

section \<open>Buffer Builder\<close>

text \<open>
  The loop of \<open>mkTestBuffer\<close>, with the loop variables \<open>i\<close> and \<open>j\<close> of type \<open>long long\<close>.
  Indexing the vector converts them to \<open>size_t\<close>; an index outside the vector is undefined
  behaviour. \<open>j -= step\<close> is computed in \<open>size_t\<close> and converted back. The loop does not
  terminate when \<open>step\<close> is 0, so it is a partial function: \<open>None\<close> is divergence.
  The slot count \<open>size\<close> of the source is written \<open>sz\<close>.
\<close>

partial_function (option) mkTestBuffer_loop ::
  "nat \<Rightarrow> nat \<Rightarrow> ptr list \<Rightarrow> int \<Rightarrow> int \<Rightarrow> (error + ptr list) option" where
  "mkTestBuffer_loop sz step buffer i j =
     (if j \<ge> 0 then
        (if to_size_t i < length buffer \<and> to_size_t j < length buffer then
           mkTestBuffer_loop sz step
             ((buffer[to_size_t i := Slot (to_size_t j)])[to_size_t j := Slot (sz - 1)])
             j (to_ll (j - int step))
         else Some (Inl OutOfBounds))
      else Some (Inr buffer))"

definition mkTestBuffer :: "nat \<Rightarrow> nat \<Rightarrow> (error + ptr list) option" where
  "mkTestBuffer sz step =
     (if \<not> (sz > 0 \<and> step > 0) then Some (Inl AssertionFailed)
      else if sz > vector_max_size then Some (Inl AllocFailed)
      else mkTestBuffer_loop sz step (replicate sz Null)
             (to_ll (int sz - 1)) (to_ll (int sz - 1 - int step)))"

section \<open>Timed Traversal\<close>

text \<open>\<open>*pos\<close>: reading the slot a pointer points to.\<close>

definition deref :: "ptr list \<Rightarrow> ptr \<Rightarrow> error + ptr" where
  "deref buffer pos =
     (case pos of
        Null \<Rightarrow> Inl NullDeref
      | Slot k \<Rightarrow> if k < length buffer then Inr (buffer ! k) else Inl OutOfBounds)"

text \<open>The loop \<open>for (i = 0; i < nTouches; ++i) pos = *pos\<close>, by recursion on the hops left.\<close>

fun touch_loop :: "ptr list \<Rightarrow> nat \<Rightarrow> ptr \<Rightarrow> error + ptr" where
  "touch_loop buffer 0 pos = Inr pos"
| "touch_loop buffer (Suc n) pos =
     (case deref buffer pos of
        Inl e \<Rightarrow> Inl e
      | Inr pos' \<Rightarrow> touch_loop buffer n pos')"

definition touchTestBuffer :: "ptr list \<Rightarrow> nat \<Rightarrow> error + ptr" where
  "touchTestBuffer buffer nTouches =
     (if size_t_sub (length buffer) 1 < length buffer then
        (case touch_loop buffer nTouches (buffer ! (size_t_sub (length buffer) 1)) of
           Inl e \<Rightarrow> Inl e
         | Inr pos \<Rightarrow> deref buffer pos)
      else Inl OutOfBounds)"

text \<open>
  The clock is an input of the model: \<open>clk t\<close> is the value, in nanoseconds, that the
  \<open>t\<close>-th call of \<open>high_resolution_clock::now()\<close> returns. A function that reads the clock
  takes the number of readings made so far and returns it updated. A duration is the
  \<open>long long\<close> difference of two readings. The vector \<open>times\<close> of the source is written
  \<open>tms\<close>, the reading \<open>end\<close> is written \<open>fin\<close>. \<open>touchTestBufferTimed\<close> reads the entry slot,
  then reserves the vector \<open>times\<close>, then walks.
\<close>

type_synonym clock = "nat \<Rightarrow> int"

fun touchTimed_loop ::
  "clock \<Rightarrow> ptr list \<Rightarrow> nat \<Rightarrow> nat \<Rightarrow> ptr \<Rightarrow> int list \<Rightarrow> error + (int list \<times> ptr \<times> nat)" where
  "touchTimed_loop clk buffer 0 t pos tms = Inr (tms, pos, t)"
| "touchTimed_loop clk buffer (Suc n) t pos tms =
     (let start = clk t in
      case deref buffer pos of
        Inl e \<Rightarrow> Inl e
      | Inr pos' \<Rightarrow>
          (let fin = clk (t + 1) in
           touchTimed_loop clk buffer n (t + 2) pos' (tms @ [to_ll (fin - start)])))"

definition touchTestBufferTimed ::
  "clock \<Rightarrow> nat \<Rightarrow> ptr list \<Rightarrow> nat \<Rightarrow> error + ((int list \<times> ptr) \<times> nat)" where
  "touchTestBufferTimed clk t buffer nTouches =
     (if size_t_sub (length buffer) 1 < length buffer then
        (if nTouches > vector_max_size then Inl AllocFailed
         else
           (case touchTimed_loop clk buffer nTouches t
                   (buffer ! (size_t_sub (length buffer) 1)) [] of
              Inl e \<Rightarrow> Inl e
            | Inr (tms, pos, t') \<Rightarrow>
                (case deref buffer pos of
                   Inl e \<Rightarrow> Inl e
                 | Inr p \<Rightarrow> Inr ((tms, p), t'))))
      else Inl OutOfBounds)"

text \<open>
  \<open>std::max_element(first, last, comp)\<close> keeps the first of the largest elements; for an
  empty range it returns \<open>last\<close>, here \<open>None\<close>.
\<close>

fun max_element_loop :: "('a \<Rightarrow> 'a \<Rightarrow> bool) \<Rightarrow> 'a \<Rightarrow> 'a list \<Rightarrow> 'a" where
  "max_element_loop cmp largest [] = largest"
| "max_element_loop cmp largest (x # xs) =
     max_element_loop cmp (if cmp largest x then x else largest) xs"

definition max_element :: "('a \<Rightarrow> 'a \<Rightarrow> bool) \<Rightarrow> 'a list \<Rightarrow> 'a option" where
  "max_element cmp xs =
     (case xs of [] \<Rightarrow> None | x # rest \<Rightarrow> Some (max_element_loop cmp x rest))"

section \<open>Cache-Size Inference\<close>

record RawLevelInfo =
  arraySizeBytes :: nat
  timeNanos :: int

text \<open>
  \<open>tryCacheLevelSizes\<close>. The constant \<open>nTouches\<close> is local to it in the source. The loop
  diverges when \<open>sizeStep\<close> is 0 and no round fails, so it is a partial function. Next to
  the vector \<open>infos\<close> it keeps a ghost list with one \<open>probe\<close> per round started: the
  arguments with which the round calls \<open>mkTestBuffer\<close> and \<open>touchTestBuffer\<close>. What the
  loop writes to \<open>std::cout\<close> is left out.
\<close>

definition nTouches :: nat where
  "nTouches = 1000000"

record probe =
  slots :: nat
  stride :: nat
  touches :: nat

partial_function (option) tryCacheLevelSizes_loop ::
  "clock \<Rightarrow> nat \<Rightarrow> nat \<Rightarrow> nat \<Rightarrow> nat \<Rightarrow> probe list \<Rightarrow> RawLevelInfo list
     \<Rightarrow> (probe list \<times> (error + RawLevelInfo list)) option" where
  "tryCacheLevelSizes_loop clk t sizeStep maxSize sz probes infos =
     (if sz \<le> maxSize then
        (let step = sz div nTouches;
             probes' = probes @ [\<lparr>slots = sz, stride = max 1 step, touches = nTouches\<rparr>] in
         case mkTestBuffer sz (max 1 step) of
           None \<Rightarrow> None
         | Some (Inl e) \<Rightarrow> Some (probes', Inl e)
         | Some (Inr buffer) \<Rightarrow>
             (case touchTestBuffer buffer nTouches of
                Inl e \<Rightarrow> Some (probes', Inl e)
              | Inr dummyPtr1 \<Rightarrow>
                  (let start = clk t in
                   case touchTestBuffer buffer nTouches of
                     Inl e \<Rightarrow> Some (probes', Inl e)
                   | Inr dummyPtr2 \<Rightarrow>
                       (let fin = clk (t + 1);
                            info = \<lparr>arraySizeBytes = size_t_mul sz sizeof_ptr,
                                    timeNanos = to_ll (fin - start)\<rparr> in
                        tryCacheLevelSizes_loop clk (t + 2) sizeStep maxSize
                          (size_t_add sz sizeStep) probes' (infos @ [info])))))
      else Some (probes, Inr infos))"

definition tryCacheLevelSizes_probed ::
  "clock \<Rightarrow> nat \<Rightarrow> nat \<Rightarrow> nat \<Rightarrow> (probe list \<times> (error + RawLevelInfo list)) option" where
  "tryCacheLevelSizes_probed clk t minSizeBytes maxSizeBytes =
     (let minSize = minSizeBytes div sizeof_ptr;
          maxSize = maxSizeBytes div sizeof_ptr;
          sizeStep = minSize in
      tryCacheLevelSizes_loop clk t sizeStep maxSize minSize [] [])"

definition tryCacheLevelSizes ::
  "clock \<Rightarrow> nat \<Rightarrow> nat \<Rightarrow> nat \<Rightarrow> (error + RawLevelInfo list) option" where
  "tryCacheLevelSizes clk t minSizeBytes maxSizeBytes =
     map_option snd (tryCacheLevelSizes_probed clk t minSizeBytes maxSizeBytes)"

text \<open>
  \<open>selectCacheSize\<close>: the loop of first differences, the inner loop that sums one window
  (the variable \<open>sum\<close> of the source is written \<open>acc\<close>), the loop of windows, whose
  bound \<open>diffs.size() - 2\<close> wraps around when \<open>diffs\<close> has fewer than two elements, and
  the selection of the maximum. The first loop starts at \<open>i = 1\<close> and the loop of windows at
  \<open>i = windowSize - 1\<close>, so the indices \<open>i - 1\<close> and \<open>j\<close> stay inside the vectors whenever
  \<open>i\<close> does; only \<open>diffs[i]\<close> can be out of bounds.
\<close>

function diffs_loop :: "RawLevelInfo list \<Rightarrow> nat \<Rightarrow> RawLevelInfo list \<Rightarrow> RawLevelInfo list" where
  "diffs_loop infos i diffs =
     (if i < length infos then
        (let prev = infos ! (i - 1);
             curr = infos ! i;
             info = \<lparr>arraySizeBytes = arraySizeBytes curr,
                     timeNanos = to_ll (timeNanos curr - timeNanos prev)\<rparr> in
         diffs_loop infos (i + 1) (diffs @ [info]))
      else diffs)"
  by pat_completeness auto
termination
  by (relation "measure (\<lambda>(infos, i, diffs). length infos - i)") auto

function window_sum :: "RawLevelInfo list \<Rightarrow> nat \<Rightarrow> nat \<Rightarrow> int \<Rightarrow> int" where
  "window_sum diffs j i acc =
     (if j < i then window_sum diffs (j + 1) i (to_ll (acc + timeNanos (diffs ! j))) else acc)"
  by pat_completeness auto
termination
  by (relation "measure (\<lambda>(diffs, j, i, acc). i - j)") auto

function windowed_loop ::
  "RawLevelInfo list \<Rightarrow> nat \<Rightarrow> nat \<Rightarrow> nat \<Rightarrow> RawLevelInfo list \<Rightarrow> error + RawLevelInfo list" where
  "windowed_loop diffs windowSize bound i windowed =
     (if i < bound then
        (if i < length diffs then
           (let acc = window_sum diffs (size_t_sub (i + 1) windowSize) i (timeNanos (diffs ! i));
                info = \<lparr>arraySizeBytes = arraySizeBytes (diffs ! i), timeNanos = acc\<rparr> in
            windowed_loop diffs windowSize bound (i + 1) (windowed @ [info]))
         else Inl OutOfBounds)
      else Inr windowed)"
  by pat_completeness auto
termination
  by (relation "measure (\<lambda>(diffs, windowSize, bound, i, windowed). bound - i)") auto

declare diffs_loop.simps [simp del]
declare window_sum.simps [simp del]
declare windowed_loop.simps [simp del]

definition windowed_series :: "RawLevelInfo list \<Rightarrow> nat \<Rightarrow> error + RawLevelInfo list" where
  "windowed_series infos windowSize =
     (let diffs = diffs_loop infos 1 [] in
      windowed_loop diffs windowSize (size_t_sub (length diffs) 2) (size_t_sub windowSize 1) [])"

definition selectCacheSize :: "RawLevelInfo list \<Rightarrow> nat \<Rightarrow> error + nat" where
  "selectCacheSize infos windowSize =
     (if \<not> windowSize \<ge> 2 then Inl AssertionFailed
      else case windowed_series infos windowSize of
             Inl e \<Rightarrow> Inl e
           | Inr windowed \<Rightarrow>
               (case max_element (\<lambda>x y. timeNanos x < timeNanos y) windowed of
                  None \<Rightarrow> Inl EmptyRange
                | Some m \<Rightarrow> Inr (arraySizeBytes m)))"

section \<open>Cache-Line-Size Inference\<close>

text \<open>
  The first differences of the timing series: the iterator starts at \<open>times.begin() + 1\<close>,
  which is outside an empty vector.
\<close>

fun diffs_from :: "int \<Rightarrow> int list \<Rightarrow> int list" where
  "diffs_from prev [] = []"
| "diffs_from prev (x # xs) = to_ll (x - prev) # diffs_from x xs"

definition first_differences :: "int list \<Rightarrow> error + int list" where
  "first_differences tms =
     (case tms of [] \<Rightarrow> Inl OutOfBounds | x # xs \<Rightarrow> Inr (diffs_from x xs))"

text \<open>
  \<open>calcCacheLineSize\<close> has two \<open>return\<close> statements; the loop records which one was taken,
  and with which value of \<open>step\<close>. The variable \<open>max\<close> of the source is written \<open>mx\<close>.
\<close>

datatype line_exit = Dropped nat | Exhausted nat

partial_function (option) calcCacheLineSize_loop ::
  "clock \<Rightarrow> nat \<Rightarrow> nat \<Rightarrow> int \<Rightarrow> nat \<Rightarrow> (error + line_exit) option" where
  "calcCacheLineSize_loop clk t sz lastMaxJump step =
     (if step < sz then
        (case mkTestBuffer sz step of
           None \<Rightarrow> None
         | Some (Inl e) \<Rightarrow> Some (Inl e)
         | Some (Inr buffer) \<Rightarrow>
             (case touchTestBufferTimed clk t buffer (sz div step) of
                Inl e \<Rightarrow> Some (Inl e)
              | Inr ((tms, p), t') \<Rightarrow>
                  (case first_differences tms of
                     Inl e \<Rightarrow> Some (Inl e)
                   | Inr diffs \<Rightarrow>
                       (case max_element (<) diffs of
                          None \<Rightarrow> Some (Inl EmptyRange)
                        | Some mx \<Rightarrow>
                            if lastMaxJump \<noteq> LLONG_MAX \<and> mx < ll_div lastMaxJump 10
                            then Some (Inr (Dropped step))
                            else calcCacheLineSize_loop clk t' sz mx (size_t_mul step 2)))))
      else Some (Inr (Exhausted step)))"

definition exit_bytes :: "line_exit \<Rightarrow> nat" where
  "exit_bytes x =
     (case x of
        Dropped step \<Rightarrow> size_t_mul step sizeof_ptr
      | Exhausted step \<Rightarrow> size_t_mul step sizeof_ptr)"

definition calcCacheLineSize_exit :: "clock \<Rightarrow> nat \<Rightarrow> nat \<Rightarrow> (error + line_exit) option" where
  "calcCacheLineSize_exit clk t cacheSizeBytes =
     calcCacheLineSize_loop clk t (cacheSizeBytes div sizeof_ptr) LLONG_MAX 1"

definition calcCacheLineSize :: "clock \<Rightarrow> nat \<Rightarrow> nat \<Rightarrow> (error + nat) option" where
  "calcCacheLineSize clk t cacheSizeBytes =
     map_option (map_sum id exit_bytes) (calcCacheLineSize_exit clk t cacheSizeBytes)"

text \<open>A clock that stands still, for the concrete runs below.\<close>

definition still_clock :: clock where
  "still_clock t = 0"

section \<open>Auxiliary notions for the proofs\<close>

text \<open>
  Auxiliary notions for the proofs. \<open>linked sz step buf i\<close> is the buffer that the loop of
  \<open>mkTestBuffer\<close> leaves when it is entered with the buffer \<open>buf\<close> and \<open>i\<close>;
  \<open>chain sz step\<close> is the buffer built for \<open>step < sz\<close>: the slots whose index is
  congruent to \<open>sz - 1\<close> modulo \<open>step\<close> point \<open>step\<close> slots back, the lowest of them
  points to the last slot, all others stay null. \<open>cycle_len\<close> is the number of linked
  slots and \<open>cycle_pos sz step r\<close> the index of the slot reached from the last slot by
  \<open>r\<close> hops.
\<close>

definition linked :: "nat \<Rightarrow> nat \<Rightarrow> ptr list \<Rightarrow> nat \<Rightarrow> ptr list" where
  "linked sz step buf i =
     map (\<lambda>k. if k \<le> i \<and> k mod step = i mod step
              then (if step \<le> k then Slot (k - step)
                    else if i < step then buf ! k else Slot (sz - 1))
              else buf ! k) [0..<length buf]"

definition chain :: "nat \<Rightarrow> nat \<Rightarrow> ptr list" where
  "chain sz step =
     map (\<lambda>k. if k mod step = (sz - 1) mod step
              then (if step \<le> k then Slot (k - step) else Slot (sz - 1))
              else Null) [0..<sz]"

definition cycle_len :: "nat \<Rightarrow> nat \<Rightarrow> nat" where
  "cycle_len sz step = (sz - 1) div step + 1"

definition cycle_pos :: "nat \<Rightarrow> nat \<Rightarrow> nat \<Rightarrow> nat" where
  "cycle_pos sz step r = sz - 1 - r * step"

text \<open>
  \<open>diff_at infos k\<close> is the element that the first loop of \<open>selectCacheSize\<close> pushes for
  the index \<open>k\<close>, and \<open>window_at infos windowSize q\<close> is the \<open>q\<close>-th element of the windowed
  series: the sum of \<open>windowSize\<close> consecutive differences telescopes, modulo \<open>2 ^ 64\<close>, to
  the difference of two timings \<open>windowSize\<close> points apart.
\<close>

definition diff_at :: "RawLevelInfo list \<Rightarrow> nat \<Rightarrow> RawLevelInfo" where
  "diff_at infos k =
     \<lparr>arraySizeBytes = arraySizeBytes (infos ! k),
      timeNanos = to_ll (timeNanos (infos ! k) - timeNanos (infos ! (k - 1)))\<rparr>"

definition window_at :: "RawLevelInfo list \<Rightarrow> nat \<Rightarrow> nat \<Rightarrow> RawLevelInfo" where
  "window_at infos windowSize q =
     \<lparr>arraySizeBytes = arraySizeBytes (infos ! (q + windowSize)),
      timeNanos = to_ll (timeNanos (infos ! (q + windowSize)) - timeNanos (infos ! q))\<rparr>"

text \<open>
  \<open>probe_of sz\<close> is the ghost record of a round of \<open>tryCacheLevelSizes\<close> with \<open>sz\<close> slots,
  \<open>info_of clk t sz\<close> the \<open>RawLevelInfo\<close> that the round pushes when it starts at clock
  reading \<open>t\<close>.
\<close>

definition probe_of :: "nat \<Rightarrow> probe" where
  "probe_of sz = \<lparr>slots = sz, stride = max 1 (sz div nTouches), touches = nTouches\<rparr>"

definition info_of :: "clock \<Rightarrow> nat \<Rightarrow> nat \<Rightarrow> RawLevelInfo" where
  "info_of clk t sz =
     \<lparr>arraySizeBytes = size_t_mul sz sizeof_ptr, timeNanos = to_ll (clk (t + 1) - clk t)\<rparr>"

text \<open>
  \<open>rounds maxSize sizeStep sz\<close> is the number of rounds that the probing loop makes from
  the slot count \<open>sz\<close> on.
\<close>

definition rounds :: "nat \<Rightarrow> nat \<Rightarrow> nat \<Rightarrow> nat" where
  "rounds maxSize sizeStep sz = (maxSize + sizeStep - sz) div sizeStep"

text \<open>
  \<open>stride_jump clk t sz step\<close> is what one iteration of the loop of \<open>calcCacheLineSize\<close>
  measures: the maximum jump of the stride \<open>step\<close>, with the clock reading reached.
\<close>

definition stride_jump :: "clock \<Rightarrow> nat \<Rightarrow> nat \<Rightarrow> nat \<Rightarrow> (error + int \<times> nat) option" where
  "stride_jump clk t sz step =
     (case mkTestBuffer sz step of
        None \<Rightarrow> None
      | Some (Inl e) \<Rightarrow> Some (Inl e)
      | Some (Inr buffer) \<Rightarrow>
          (case touchTestBufferTimed clk t buffer (sz div step) of
             Inl e \<Rightarrow> Some (Inl e)
           | Inr ((tms, p), t') \<Rightarrow>
               (case first_differences tms of
                  Inl e \<Rightarrow> Some (Inl e)
                | Inr diffs \<Rightarrow>
                    (case max_element (<) diffs of
                       None \<Rightarrow> Some (Inl EmptyRange)
                     | Some mx \<Rightarrow> Some (Inr (mx, t'))))))"


text \<open>Concrete series for the runs below.\<close>

definition five_points :: "RawLevelInfo list" where
  "five_points =
     [\<lparr>arraySizeBytes = 8192, timeNanos = 10\<rparr>,
      \<lparr>arraySizeBytes = 16384, timeNanos = 20\<rparr>,
      \<lparr>arraySizeBytes = 24576, timeNanos = 30\<rparr>,
      \<lparr>arraySizeBytes = 32768, timeNanos = 40\<rparr>,
      \<lparr>arraySizeBytes = 40960, timeNanos = 50\<rparr>]"

definition six_points :: "RawLevelInfo list" where
  "six_points = five_points @ [\<lparr>arraySizeBytes = 49152, timeNanos = 60\<rparr>]"

definition spike_series :: "RawLevelInfo list" where
  "spike_series =
     [\<lparr>arraySizeBytes = 8192, timeNanos = 0\<rparr>,
      \<lparr>arraySizeBytes = 16384, timeNanos = 100\<rparr>,
      \<lparr>arraySizeBytes = 24576, timeNanos = 101\<rparr>,
      \<lparr>arraySizeBytes = 32768, timeNanos = 102\<rparr>,
      \<lparr>arraySizeBytes = 40960, timeNanos = 103\<rparr>,
      \<lparr>arraySizeBytes = 49152, timeNanos = 104\<rparr>,
      \<lparr>arraySizeBytes = 57344, timeNanos = 105\<rparr>]"

definition convex_series :: "RawLevelInfo list" where
  "convex_series =
     [\<lparr>arraySizeBytes = 8192, timeNanos = 0\<rparr>,
      \<lparr>arraySizeBytes = 16384, timeNanos = 1\<rparr>,
      \<lparr>arraySizeBytes = 24576, timeNanos = 3\<rparr>,
      \<lparr>arraySizeBytes = 32768, timeNanos = 6\<rparr>,
      \<lparr>arraySizeBytes = 40960, timeNanos = 10\<rparr>,
      \<lparr>arraySizeBytes = 49152, timeNanos = 15\<rparr>,
      \<lparr>arraySizeBytes = 57344, timeNanos = 21\<rparr>,
      \<lparr>arraySizeBytes = 65536, timeNanos = 28\<rparr>]"

section \<open>Properties of the Buffer Builder\<close>

lemma to_ll_id: "- (2 ^ 63) \<le> x \<Longrightarrow> x < 2 ^ 63 \<Longrightarrow> to_ll x = x"
  by (simp add: to_ll_def)

lemma to_size_t_int: "n < 2 ^ 64 \<Longrightarrow> to_size_t (int n) = n"
  by (simp add: to_size_t_def)

lemma linked_stop: "i < step \<Longrightarrow> linked sz step buf i = buf"
proof -
  assume a: "i < step"
  have "\<And>k. k \<le> i \<Longrightarrow> k mod step = i mod step \<Longrightarrow> \<not> step \<le> k"
    using a by simp
  then have "linked sz step buf i = map (\<lambda>k. buf ! k) [0..<length buf]"
    unfolding linked_def using a by (intro map_cong) auto
  then show ?thesis by (simp add: map_nth)
qed

lemma linked_step:
  assumes "step \<le> i" "0 < step" "i < length buf"
  shows "linked sz step (buf[i := Slot (i - step), i - step := Slot (sz - 1)]) (i - step)
         = linked sz step buf i"
proof (rule nth_equalityI)
  show "length (linked sz step (buf[i := Slot (i - step), i - step := Slot (sz - 1)]) (i - step))
        = length (linked sz step buf i)"
    by (simp add: linked_def)
next
  fix k
  assume "k < length (linked sz step (buf[i := Slot (i - step), i - step := Slot (sz - 1)]) (i - step))"
  then have k: "k < length buf" by (simp add: linked_def)
  have m: "(i - step) mod step = i mod step"
    using assms(1) by (simp add: le_mod_geq)
  have gap: "k mod step = i mod step \<Longrightarrow> k \<le> i \<Longrightarrow> \<not> k \<le> i - step \<Longrightarrow> k = i"
  proof -
    assume h: "k mod step = i mod step" "k \<le> i" "\<not> k \<le> i - step"
    have "(i - k) mod step = 0" using h(1,2)
      by (metis mod_eq_dvd_iff_nat dvd_imp_mod_0)
    moreover have "i - k < step" using h assms by arith
    ultimately show "k = i" using h(2) by simp
  qed
  have low: "k mod step = i mod step \<Longrightarrow> k \<le> i - step \<Longrightarrow> k < step \<Longrightarrow> i - step < step \<Longrightarrow> k = i - step"
  proof -
    assume h: "k mod step = i mod step" "k \<le> i - step" "k < step" "i - step < step"
    then have "k mod step = k" "(i - step) mod step = i - step" by simp_all
    with h(1) m show "k = i - step" by simp
  qed
  show "linked sz step (buf[i := Slot (i - step), i - step := Slot (sz - 1)]) (i - step) ! k
        = linked sz step buf i ! k"
    using k assms m gap low
    by (auto simp add: linked_def nth_list_update)
qed

lemma mkTestBuffer_loop_linked:
  assumes "0 < step" "step \<le> 2 ^ 63" "i < length buf" "length buf < 2 ^ 63"
  shows "mkTestBuffer_loop sz step buf (int i) (to_ll (int i - int step))
         = Some (Inr (linked sz step buf i))"
  using assms
proof (induction i arbitrary: buf rule: less_induct)
  case (less i)
  show ?case
  proof (cases "i < step")
    case True
    have "to_ll (int i - int step) = int i - int step"
      using less.prems True by (intro to_ll_id) auto
    then show ?thesis
      using True by (subst mkTestBuffer_loop.simps) (simp add: linked_stop)
  next
    case False
    then have ge: "step \<le> i" by simp
    have d: "int i - int step = int (i - step)"
      using ge by (simp add: of_nat_diff)
    have j: "to_ll (int i - int step) = int (i - step)"
      unfolding d using less.prems by (intro to_ll_id) auto
    have ti: "to_size_t (int i) = i" and tj: "to_size_t (int (i - step)) = i - step"
      using less.prems by (auto intro!: to_size_t_int)
    have lt: "i - step < length buf"
      using less.prems by simp
    let ?buf = "buf[i := Slot (i - step), i - step := Slot (sz - 1)]"
    have "mkTestBuffer_loop sz step buf (int i) (to_ll (int i - int step))
          = mkTestBuffer_loop sz step ?buf (int (i - step)) (to_ll (int (i - step) - int step))"
      using less.prems(3) lt
      by (subst mkTestBuffer_loop.simps) (simp only: j ti tj, simp)
    also have "\<dots> = Some (Inr (linked sz step ?buf (i - step)))"
      using less.prems ge by (intro less.IH) auto
    also have "linked sz step ?buf (i - step) = linked sz step buf i"
      using less.prems ge by (intro linked_step) auto
    finally show ?thesis .
  qed
qed

lemma mkTestBuffer_linked:
  assumes "0 < sz" "sz \<le> vector_max_size" "0 < step" "step \<le> 2 ^ 63"
  shows "mkTestBuffer sz step = Some (Inr (linked sz step (replicate sz Null) (sz - 1)))"
proof -
  have b: "sz < 2 ^ 63"
    using assms(2) by (simp add: vector_max_size_def)
  have d: "int sz - 1 = int (sz - 1)"
    using assms(1) by (simp add: of_nat_diff)
  have i: "to_ll (int (sz - 1)) = int (sz - 1)"
    using b by (intro to_ll_id) auto
  have "mkTestBuffer sz step =
        mkTestBuffer_loop sz step (replicate sz Null) (to_ll (int sz - 1))
          (to_ll (int sz - 1 - int step))"
    using assms(1,2,3) by (simp add: mkTestBuffer_def not_less)
  also have "\<dots> = mkTestBuffer_loop sz step (replicate sz Null) (int (sz - 1))
          (to_ll (int (sz - 1) - int step))"
    by (simp only: d i)
  also have "\<dots> = Some (Inr (linked sz step (replicate sz Null) (sz - 1)))"
    using assms b by (intro mkTestBuffer_loop_linked) auto
  finally show ?thesis .
qed

lemma mkTestBuffer_degenerate:
  assumes "0 < sz" "sz \<le> vector_max_size" "sz \<le> step" "step \<le> 2 ^ 63"
  shows "mkTestBuffer sz step = Some (Inr (replicate sz Null))"
proof -
  have "linked sz step (replicate sz Null) (sz - 1) = replicate sz Null"
    using assms(1,3) by (intro linked_stop) auto
  moreover have "0 < step" using assms(1,3) by simp
  ultimately show ?thesis
    using mkTestBuffer_linked [OF assms(1,2) _ assms(4)] by simp
qed

lemma mkTestBuffer_chain:
  assumes "0 < step" "step < sz" "sz \<le> vector_max_size"
  shows "mkTestBuffer sz step = Some (Inr (chain sz step))"
proof -
  have "step \<le> 2 ^ 63"
    using assms(2,3) by (simp add: vector_max_size_def)
  moreover have "0 < sz" using assms(2) by simp
  moreover have "linked sz step (replicate sz Null) (sz - 1) = chain sz step"
    unfolding linked_def chain_def using assms(1,2) by (auto intro!: map_cong)
  ultimately show ?thesis
    using mkTestBuffer_linked [of sz step] assms(1,3) by simp
qed

lemma length_chain: "length (chain sz step) = sz"
  by (simp add: chain_def)

lemma chain_nth:
  "k < sz \<Longrightarrow> chain sz step ! k =
     (if k mod step = (sz - 1) mod step
      then (if step \<le> k then Slot (k - step) else Slot (sz - 1)) else Null)"
  by (simp add: chain_def)

lemma cycle_pos_bounds:
  assumes "0 < sz" "r < cycle_len sz step"
  shows "r * step \<le> sz - 1" "cycle_pos sz step r < sz"
    "cycle_pos sz step r mod step = (sz - 1) mod step"
proof -
  have "r \<le> (sz - 1) div step" using assms(2) by (simp add: cycle_len_def)
  then have "r * step \<le> ((sz - 1) div step) * step" by (rule mult_le_mono1)
  also have "\<dots> \<le> sz - 1" by simp
  finally show le: "r * step \<le> sz - 1" .
  show "cycle_pos sz step r < sz" using assms(1) by (simp add: cycle_pos_def)
  have "cycle_pos sz step r + r * step = sz - 1"
    using le by (simp add: cycle_pos_def)
  moreover have "(cycle_pos sz step r + r * step) mod step = cycle_pos sz step r mod step"
    by simp
  ultimately show "cycle_pos sz step r mod step = (sz - 1) mod step"
    by simp
qed

lemma deref_chain:
  assumes "0 < step" "step < sz" "r < cycle_len sz step"
  shows "deref (chain sz step) (Slot (cycle_pos sz step r))
         = Inr (Slot (cycle_pos sz step (Suc r mod cycle_len sz step)))"
proof -
  have sz: "0 < sz" using assms by simp
  note b = cycle_pos_bounds [OF sz assms(3)]
  have d: "deref (chain sz step) (Slot (cycle_pos sz step r))
           = Inr (if step \<le> cycle_pos sz step r then Slot (cycle_pos sz step r - step)
                  else Slot (sz - 1))"
    using b(2,3) by (simp add: deref_def length_chain chain_nth)
  show ?thesis
  proof (cases "Suc r < cycle_len sz step")
    case True
    have "Suc r * step \<le> sz - 1"
      using cycle_pos_bounds(1) [OF sz True] .
    then have "step \<le> cycle_pos sz step r"
      by (simp add: cycle_pos_def)
    moreover have "cycle_pos sz step r - step = cycle_pos sz step (Suc r)"
      by (simp add: cycle_pos_def)
    moreover have "Suc r mod cycle_len sz step = Suc r"
      using True by simp
    ultimately show ?thesis
      unfolding d by simp
  next
    case False
    then have r: "Suc r = cycle_len sz step" using assms(3) by simp
    then have "r = (sz - 1) div step" by (simp add: cycle_len_def)
    then have "cycle_pos sz step r = (sz - 1) mod step"
      by (simp add: cycle_pos_def minus_div_mult_eq_mod)
    moreover have "(sz - 1) mod step < step" using assms(1) by simp
    ultimately have "\<not> step \<le> cycle_pos sz step r" by simp
    moreover have "cycle_pos sz step 0 = sz - 1" by (simp add: cycle_pos_def)
    moreover have "Suc r mod cycle_len sz step = 0" using r by simp
    ultimately show ?thesis
      unfolding d by simp
  qed
qed

lemma touch_loop_chain:
  assumes "0 < step" "step < sz" "r < cycle_len sz step"
  shows "touch_loop (chain sz step) n (Slot (cycle_pos sz step r))
         = Inr (Slot (cycle_pos sz step ((r + n) mod cycle_len sz step)))"
  using assms(3)
proof (induction n arbitrary: r)
  case 0
  then show ?case by simp
next
  case (Suc n)
  let ?L = "cycle_len sz step"
  have lt: "Suc r mod ?L < ?L"
    by (simp add: cycle_len_def)
  have "touch_loop (chain sz step) (Suc n) (Slot (cycle_pos sz step r))
        = touch_loop (chain sz step) n (Slot (cycle_pos sz step (Suc r mod ?L)))"
    using deref_chain [OF assms(1,2) Suc.prems] by simp
  also have "\<dots> = Inr (Slot (cycle_pos sz step ((Suc r mod ?L + n) mod ?L)))"
    by (rule Suc.IH [OF lt])
  also have "(Suc r mod ?L + n) mod ?L = (Suc r + n) mod ?L"
    by (rule mod_add_left_eq)
  also have "Suc r + n = r + Suc n" by simp
  finally show ?case .
qed

lemma cycle_pos_inj:
  assumes "0 < step" "0 < sz" "r < cycle_len sz step" "r' < cycle_len sz step"
    "cycle_pos sz step r = cycle_pos sz step r'"
  shows "r = r'"
proof -
  have a: "r * step \<le> sz - 1" and b: "r' * step \<le> sz - 1"
    using cycle_pos_bounds(1) assms(2,3,4) by blast+
  have "sz - 1 - r * step = sz - 1 - r' * step"
    using assms(5) by (simp add: cycle_pos_def)
  with a b have "r * step = r' * step"
    by (metis diff_diff_cancel)
  then show ?thesis using assms(1) by simp
qed

lemma mkTestBuffer_loop_no_assert:
  assumes "mkTestBuffer_loop sz step buffer i j = Some r"
  shows "r \<noteq> Inl AssertionFailed"
proof (rule mkTestBuffer_loop.raw_induct
    [where P = "\<lambda>sz step buffer i j y. y \<noteq> Inl AssertionFailed", OF _ assms], goal_cases)
  case (1 rec sz step buffer i j y)
  then show ?case by (auto split: if_splits)
qed

lemma replicate_3: "replicate 3 x = [x, x, x]"
  by (simp add: numeral_3_eq_3)

lemma mkTestBuffer_3_2: "mkTestBuffer 3 2 = Some (Inr [Slot 2, Null, Slot 0])"
  by (simp add: mkTestBuffer_def mkTestBuffer_loop.simps to_ll_def to_size_t_def
      vector_max_size_def replicate_3)

lemma mkTestBuffer_3_1: "mkTestBuffer 3 1 = Some (Inr [Slot 2, Slot 0, Slot 1])"
  by (simp add: mkTestBuffer_def mkTestBuffer_loop.simps to_ll_def to_size_t_def
      vector_max_size_def replicate_3)

text \<open>
  Claim C1 says that for every \<open>size > 0\<close> and \<open>1 \<le> step < size\<close> the built buffer is one
  cycle through all \<open>size\<close> slots: \<open>size\<close> hops from the entry (the last slot) lead back
  to it, with no repeat before. For \<open>size = 3\<close> and \<open>step = 2\<close> the builder links slots 2
  and 0 only and leaves slot 1 null: three hops from the entry end in slot 0, and the
  entry is reached again after two hops already.
\<close>

theorem full_cycle_fails_for_stride_2_counterexample:
  "mkTestBuffer 3 2 = Some (Inr [Slot 2, Null, Slot 0]) \<and>
   touch_loop [Slot 2, Null, Slot 0] 3 (Slot 2) = Inr (Slot 0) \<and>
   touch_loop [Slot 2, Null, Slot 0] 2 (Slot 2) = Inr (Slot 2)"
proof -
  have "touch_loop [Slot 2, Null, Slot 0] 3 (Slot 2) = Inr (Slot 0)"
    by (simp add: numeral_3_eq_3 deref_def)
  moreover have "touch_loop [Slot 2, Null, Slot 0] 2 (Slot 2) = Inr (Slot 2)"
    by (simp add: numeral_2_eq_2 deref_def)
  ultimately show ?thesis
    using mkTestBuffer_3_2 by blast
qed

text \<open>
  Claim C1, amended. For every stride \<open>1 \<le> step < size\<close> and every slot count that a
  vector can have, \<open>mkTestBuffer\<close> returns a buffer of \<open>size\<close> slots whose links form one
  closed cycle through the entry, of length \<open>(size - 1) div step + 1\<close>: that many hops from
  the entry lead back to it, \<open>n\<close> hops, for a smaller \<open>n\<close>, lead to slot
  \<open>size - 1 - n * step\<close>, and these slots are pairwise distinct. The cycle has length
  \<open>size\<close> exactly when \<open>step = 1\<close>, and then it visits every slot.
\<close>

theorem chain_is_cycle_through_entry:
  assumes "0 < step" "step < sz" "sz \<le> vector_max_size"
  shows "\<exists>buffer. mkTestBuffer sz step = Some (Inr buffer) \<and> length buffer = sz \<and>
     touch_loop buffer ((sz - 1) div step + 1) (Slot (sz - 1)) = Inr (Slot (sz - 1)) \<and>
     (\<forall>n < (sz - 1) div step + 1.
        touch_loop buffer n (Slot (sz - 1)) = Inr (Slot (sz - 1 - n * step))) \<and>
     (\<forall>n < (sz - 1) div step + 1. \<forall>m < (sz - 1) div step + 1.
        n \<noteq> m \<longrightarrow> sz - 1 - n * step \<noteq> sz - 1 - m * step) \<and>
     (((sz - 1) div step + 1 = sz) = (step = 1)) \<and>
     (step = 1 \<longrightarrow> (\<forall>k < sz. touch_loop buffer (sz - 1 - k) (Slot (sz - 1)) = Inr (Slot k)))"
proof -
  let ?L = "cycle_len sz step"
  let ?b = "chain sz step"
  have sz: "0 < sz" using assms by simp
  have L: "(sz - 1) div step + 1 = ?L" by (simp add: cycle_len_def)
  have L0: "0 < ?L" by (simp add: cycle_len_def)
  have e: "sz - 1 = cycle_pos sz step 0" by (simp add: cycle_pos_def)
  have walk: "touch_loop ?b n (Slot (sz - 1)) = Inr (Slot (cycle_pos sz step (n mod ?L)))" for n
    using touch_loop_chain [OF assms(1,2) L0, of n] by (simp add: e [symmetric])
  have 1: "mkTestBuffer sz step = Some (Inr ?b)"
    by (rule mkTestBuffer_chain [OF assms])
  have 2: "length ?b = sz" by (rule length_chain)
  have 3: "touch_loop ?b ?L (Slot (sz - 1)) = Inr (Slot (sz - 1))"
    using walk [of ?L] by (simp add: e [symmetric])
  have 4: "touch_loop ?b n (Slot (sz - 1)) = Inr (Slot (sz - 1 - n * step))" if "n < ?L" for n
    using walk [of n] that by (simp add: cycle_pos_def)
  have 5: "sz - 1 - n * step \<noteq> sz - 1 - m * step" if "n < ?L" "m < ?L" "n \<noteq> m" for n m
    using cycle_pos_inj [OF assms(1) sz that(1,2)] that(3) by (auto simp add: cycle_pos_def)
  have 6: "(?L = sz) = (step = 1)"
  proof
    assume "?L = sz"
    then have q: "(sz - 1) div step = sz - 1" using sz by (simp add: cycle_len_def)
    show "step = 1"
    proof (rule ccontr)
      assume "step \<noteq> 1"
      then have "1 < step" using assms(1) by simp
      moreover have "0 < sz - 1" using assms by simp
      ultimately have "(sz - 1) div step < sz - 1" by (rule div_less_dividend)
      with q show False by simp
    qed
  next
    assume "step = 1"
    then show "?L = sz" using sz by (simp add: cycle_len_def)
  qed
  have 7: "touch_loop ?b (sz - 1 - k) (Slot (sz - 1)) = Inr (Slot k)" if "step = 1" "k < sz" for k
  proof -
    have "sz - 1 - k < ?L" using that 6 by simp
    from 4 [OF this] show ?thesis using that by simp
  qed
  show ?thesis
    unfolding L using 1 2 3 4 5 6 7 by blast
qed

theorem chain_is_cycle_through_entry_witness:
  "(0::nat) < 1 \<and> (1::nat) < 3 \<and> (3::nat) \<le> vector_max_size \<and>
   mkTestBuffer 3 1 = Some (Inr [Slot 2, Slot 0, Slot 1]) \<and>
   touch_loop [Slot 2, Slot 0, Slot 1] 3 (Slot 2) = Inr (Slot 2) \<and>
   touch_loop [Slot 2, Slot 0, Slot 1] 1 (Slot 2) = Inr (Slot 1) \<and>
   touch_loop [Slot 2, Slot 0, Slot 1] 2 (Slot 2) = Inr (Slot 0)"
proof -
  have h: "(0::nat) < 1" "(1::nat) < 3" "(3::nat) \<le> vector_max_size"
    by (simp_all add: vector_max_size_def)
  from chain_is_cycle_through_entry [OF h]
  obtain buffer where b: "mkTestBuffer 3 1 = Some (Inr buffer)"
    and c: "touch_loop buffer ((3 - 1) div 1 + 1) (Slot (3 - 1)) = Inr (Slot (3 - 1))"
    and w: "\<forall>n < (3 - 1) div 1 + 1.
        touch_loop buffer n (Slot (3 - 1)) = Inr (Slot (3 - 1 - n * 1))"
    by blast
  have buffer: "buffer = [Slot 2, Slot 0, Slot 1]"
    using b unfolding mkTestBuffer_3_1 by simp
  have lt: "(1::nat) < (3 - 1) div 1 + 1" "(2::nat) < (3 - 1) div 1 + 1"
    by simp_all
  have w1: "touch_loop buffer 1 (Slot 2) = Inr (Slot 1)"
    using w [rule_format, OF lt(1)] by (simp del: touch_loop.simps)
  have w2: "touch_loop buffer 2 (Slot 2) = Inr (Slot 0)"
    using w [rule_format, OF lt(2)] by (simp del: touch_loop.simps)
  have c3: "touch_loop buffer 3 (Slot 2) = Inr (Slot 2)"
    using c by (simp del: touch_loop.simps)
  show ?thesis
    using h mkTestBuffer_3_1 w1 w2 c3 unfolding buffer by blast
qed

section \<open>Properties of the Timed Traversal\<close>

lemma touchTimed_loop_pos:
  "map_sum id (\<lambda>r. fst (snd r)) (touchTimed_loop clk buffer n t pos tms) = touch_loop buffer n pos"
proof (induction n arbitrary: t pos tms)
  case 0
  show ?case by simp
next
  case (Suc n)
  show ?case
  proof (cases "deref buffer pos")
    case (Inl e)
    then show ?thesis by simp
  next
    case (Inr pos')
    then show ?thesis using Suc.IH by (simp add: Let_def)
  qed
qed

lemma touchTimed_loop_length:
  "touchTimed_loop clk buffer n t pos tms = Inr (tms', p, t') \<Longrightarrow> length tms' = length tms + n"
proof (induction n arbitrary: t pos tms)
  case 0
  then show ?case by simp
next
  case (Suc n)
  show ?case
  proof (cases "deref buffer pos")
    case (Inl e)
    with Suc.prems show ?thesis by simp
  next
    case (Inr pos')
    with Suc.prems have
      "touchTimed_loop clk buffer n (t + 2) pos' (tms @ [to_ll (clk (t + 1) - clk t)]) = Inr (tms', p, t')"
      by (simp add: Let_def)
    from Suc.IH [OF this] show ?thesis by simp
  qed
qed

lemma touchTestBufferTimed_pos:
  assumes n: "n \<le> vector_max_size"
  shows "map_sum id (\<lambda>r. snd (fst r)) (touchTestBufferTimed clk t buffer n)
         = touchTestBuffer buffer n"
proof (cases "size_t_sub (length buffer) 1 < length buffer")
  case False
  then show ?thesis by (simp add: touchTestBufferTimed_def touchTestBuffer_def)
next
  case True
  let ?p0 = "buffer ! size_t_sub (length buffer) 1"
  show ?thesis
  proof (cases "touchTimed_loop clk buffer n t ?p0 []")
    case (Inl e)
    then have "touch_loop buffer n ?p0 = Inl e"
      using touchTimed_loop_pos [of clk buffer n t ?p0 "[]"] by simp
    with Inl True n show ?thesis
      by (simp add: touchTestBufferTimed_def touchTestBuffer_def not_less)
  next
    case (Inr r)
    obtain tms pos t' where r: "r = (tms, pos, t')" by (cases r) auto
    have "touch_loop buffer n ?p0 = Inr pos"
      using touchTimed_loop_pos [of clk buffer n t ?p0 "[]"] Inr r by simp
    with Inr r True n show ?thesis
      by (cases "deref buffer pos")
        (simp_all add: touchTestBufferTimed_def touchTestBuffer_def not_less)
  qed
qed

lemma touchTestBufferTimed_length:
  assumes "touchTestBufferTimed clk t buffer n = Inr ((tms, p), t')"
  shows "length tms = n"
proof -
  let ?p0 = "buffer ! size_t_sub (length buffer) 1"
  from assms obtain pos where "touchTimed_loop clk buffer n t ?p0 [] = Inr (tms, pos, t')"
    by (auto simp add: touchTestBufferTimed_def split: if_splits sum.splits)
  from touchTimed_loop_length [OF this] show ?thesis by simp
qed

lemma touchTestBuffer_chain:
  assumes "0 < step" "step < sz"
  shows "touchTestBuffer (chain sz step) n
         = Inr (Slot (cycle_pos sz step ((n + 2) mod cycle_len sz step)))"
proof -
  let ?L = "cycle_len sz step"
  have sz: "0 < sz" using assms by simp
  have one: "1 < ?L"
    using assms by (simp add: cycle_len_def div_greater_zero_iff)
  have last: "size_t_sub sz 1 = sz - 1"
    using sz by (simp add: size_t_sub_def)
  have "chain sz step ! (sz - 1) = Slot (sz - 1 - step)"
    using assms by (simp add: chain_nth)
  then have entry: "chain sz step ! (sz - 1) = Slot (cycle_pos sz step 1)"
    by (simp add: cycle_pos_def)
  have lt1: "sz - 1 < sz" using sz by simp
  have lt: "(1 + n) mod ?L < ?L" using one by simp
  have w: "touch_loop (chain sz step) n (Slot (cycle_pos sz step 1))
        = Inr (Slot (cycle_pos sz step ((1 + n) mod ?L)))"
    using one by (intro touch_loop_chain assms) simp
  have d: "deref (chain sz step) (Slot (cycle_pos sz step ((1 + n) mod ?L)))
        = Inr (Slot (cycle_pos sz step (Suc ((1 + n) mod ?L) mod ?L)))"
    by (rule deref_chain [OF assms lt])
  have m: "Suc ((1 + n) mod ?L) mod ?L = (n + 2) mod ?L"
    by (simp add: mod_Suc_eq)
  show ?thesis
    by (simp only: touchTestBuffer_def last length_chain lt1 if_True entry w d m sum.case)
qed

lemma touchTestBuffer_all_null:
  assumes "0 < sz"
  shows "touchTestBuffer (replicate sz Null) n = Inl NullDeref"
proof -
  have last: "size_t_sub sz 1 = sz - 1"
    using assms by (simp add: size_t_sub_def)
  have lt: "sz - 1 < sz" using assms by simp
  have "touch_loop (replicate sz Null) n Null = (if n = 0 then Inr Null else Inl NullDeref)"
    by (cases n) (simp_all add: deref_def)
  then have "(case touch_loop (replicate sz Null) n Null of
               Inl e \<Rightarrow> Inl e | Inr pos \<Rightarrow> deref (replicate sz Null) pos) = Inl NullDeref"
    by (simp add: deref_def)
  then show ?thesis
    by (simp only: touchTestBuffer_def length_replicate last lt if_True nth_replicate)
qed

lemma touchTestBufferTimed_all_null:
  assumes "0 < sz" "n \<le> vector_max_size"
  shows "touchTestBufferTimed clk t (replicate sz Null) n = Inl NullDeref"
proof -
  have "map_sum id (\<lambda>r. snd (fst r)) (touchTestBufferTimed clk t (replicate sz Null) n)
        = Inl NullDeref"
    by (simp only: touchTestBufferTimed_pos [OF assms(2)] touchTestBuffer_all_null [OF assms(1)])
  then show ?thesis
    by (cases "touchTestBufferTimed clk t (replicate sz Null) n") simp_all
qed

lemma to_ll_wrap_up:
  assumes "- (2 ^ 64) \<le> x + 2 ^ 63" "x < - (2 ^ 63)"
  shows "to_ll x = x + 2 ^ 64"
proof -
  have "(x + 2 ^ 63) mod 2 ^ 64 = (x + 2 ^ 63 + 2 ^ 64) mod 2 ^ 64"
    by (simp only: mod_add_self2)
  also have "\<dots> = x + 2 ^ 63 + 2 ^ 64"
    using assms by (intro mod_pos_pos_trivial) simp_all
  finally show ?thesis
    by (simp add: to_ll_def)
qed

lemma mkTestBuffer_all_null:
  assumes "0 < sz" "sz \<le> vector_max_size" "sz \<le> step" "step \<le> 2 ^ 63 + sz - 1"
  shows "mkTestBuffer sz step = Some (Inr (replicate sz Null))"
proof -
  have step: "0 < step" using assms(1,3) by simp
  have u: "mkTestBuffer sz step =
        mkTestBuffer_loop sz step (replicate sz Null) (to_ll (int sz - 1))
          (to_ll (int sz - 1 - int step))"
    using assms(1,2) step by (simp add: mkTestBuffer_def not_less)
  have l: "mkTestBuffer_loop sz step buf i j = Some (Inr buf)" if "j < 0" for buf i j
    using that by (subst mkTestBuffer_loop.simps) simp
  have "step + 1 \<le> 2 ^ 63 + sz"
    using assms(1,4) by simp
  then have "int (step + 1) \<le> int (2 ^ 63 + sz)"
    by (simp only: of_nat_le_iff)
  then have lo: "- (2 ^ 63) \<le> int sz - 1 - int step"
    by simp
  have hi: "int sz - 1 - int step < 0"
    using assms(3) by simp
  have "to_ll (int sz - 1 - int step) = int sz - 1 - int step"
    using lo hi by (intro to_ll_id) simp_all
  then have "to_ll (int sz - 1 - int step) < 0"
    using hi by simp
  then show ?thesis
    unfolding u by (rule l)
qed

lemma mkTestBuffer_wrapped:
  assumes "0 < sz" "sz \<le> vector_max_size" "2 ^ 63 + sz - 1 < step" "step < 2 ^ 64"
  shows "mkTestBuffer sz step = Some (Inl OutOfBounds)"
proof -
  have step: "0 < step" using assms(1,3) by simp
  have u: "mkTestBuffer sz step =
        mkTestBuffer_loop sz step (replicate sz Null) (to_ll (int sz - 1))
          (to_ll (int sz - 1 - int step))"
    using assms(1,2) step by (simp add: mkTestBuffer_def not_less)
  have "2 ^ 63 + sz \<le> step"
    using assms(1,3) by simp
  then have "int (2 ^ 63 + sz) \<le> int step"
    by (simp only: of_nat_le_iff)
  then have ge: "2 ^ 63 + int sz \<le> int step"
    by simp
  have "int step < int (2 ^ 64)"
    using assms(4) by (simp only: of_nat_less_iff)
  then have lt: "int step < 2 ^ 64"
    by simp
  have lo: "- (2 ^ 64) \<le> (int sz - 1 - int step) + 2 ^ 63"
    using lt by simp
  have hi: "int sz - 1 - int step < - (2 ^ 63)"
    using ge by simp
  have j: "to_ll (int sz - 1 - int step) = int sz - 1 - int step + 2 ^ 64"
    using lo hi by (rule to_ll_wrap_up)
  define j where "j = int sz - 1 - int step + 2 ^ 64"
  have j0: "0 \<le> j" and jsz: "int sz \<le> j" and j64: "j < 2 ^ 64"
    using assms(1) ge lt unfolding j_def by simp_all
  have "j mod 2 ^ 64 = j"
    using j0 j64 by (intro mod_pos_pos_trivial) simp_all
  then have "to_size_t j = nat j"
    by (simp add: to_size_t_def)
  then have oob: "\<not> to_size_t j < length (replicate sz Null)"
    using jsz by simp
  have "mkTestBuffer_loop sz step (replicate sz Null) (to_ll (int sz - 1)) j
        = Some (Inl OutOfBounds)"
    using j0 oob by (subst mkTestBuffer_loop.simps) simp
  then show ?thesis
    unfolding u j j_def .
qed

lemma chain_3_2: "chain 3 2 = [Slot 2, Null, Slot 0]"
proof -
  have "mkTestBuffer 3 2 = Some (Inr (chain 3 2))"
    by (intro mkTestBuffer_chain) (simp_all add: vector_max_size_def)
  then show ?thesis
    unfolding mkTestBuffer_3_2 by simp
qed

text \<open>
  Claim C10 says that for every \<open>size > 0\<close> and \<open>step > 0\<close> with \<open>step \<ge> size\<close> the loop of
  \<open>mkTestBuffer\<close> never executes and the returned buffer is all null. The loop is guarded
  by \<open>j >= 0\<close>, where \<open>j\<close> is the \<open>size_t\<close> value \<open>size - 1 - step\<close> converted to
  \<open>long long\<close>. For \<open>size = 1\<close> and \<open>step = 2 ^ 64 - 1\<close> the difference wraps around to 1:
  the loop is entered and indexes \<open>buffer[1]\<close>, outside the one-slot vector.
\<close>

theorem step_beyond_signed_range_counterexample:
  "mkTestBuffer 1 18446744073709551615 = Some (Inl OutOfBounds)"
  by (simp add: mkTestBuffer_def mkTestBuffer_loop.simps to_ll_def to_size_t_def
      vector_max_size_def)

text \<open>
  Claim C10, amended. For every slot count \<open>size > 0\<close> that a vector can have and every
  \<open>step > 0\<close>: if \<open>size \<le> step \<le> 2 ^ 63 + size - 1\<close>, the loop never executes, every
  slot of the returned buffer is null, every bulk traversal of it dereferences null, and
  so does every timed traversal whose hop count the reservation of the timing vector
  admits; if \<open>2 ^ 63 + size - 1 < step < 2 ^ 64\<close>, the loop is entered and indexes the
  vector out of its bounds; if \<open>step < size\<close>, the chain that starts at the address stored
  in the entry slot, \<open>&buffer[size - 1 - step]\<close>, returns to that address after exactly
  \<open>(size - 1) div step + 1\<close> hops, not before, and visits only slots whose index is
  congruent to \<open>size - 1\<close> modulo \<open>step\<close>.
\<close>

theorem degenerate_or_strided_chain:
  assumes "0 < sz" "sz \<le> vector_max_size" "0 < step"
  shows "(sz \<le> step \<and> step \<le> 2 ^ 63 + sz - 1 \<longrightarrow>
            mkTestBuffer sz step = Some (Inr (replicate sz Null)) \<and>
            (\<forall>n. touchTestBuffer (replicate sz Null) n = Inl NullDeref) \<and>
            (\<forall>n clk t. n \<le> vector_max_size \<longrightarrow>
               touchTestBufferTimed clk t (replicate sz Null) n = Inl NullDeref)) \<and>
         (2 ^ 63 + sz - 1 < step \<and> step < 2 ^ 64 \<longrightarrow>
            mkTestBuffer sz step = Some (Inl OutOfBounds)) \<and>
         (step < sz \<longrightarrow>
            (\<exists>buffer. mkTestBuffer sz step = Some (Inr buffer) \<and>
               buffer ! (sz - 1) = Slot (sz - 1 - step) \<and>
               touch_loop buffer ((sz - 1) div step + 1) (Slot (sz - 1 - step))
                 = Inr (Slot (sz - 1 - step)) \<and>
               (\<forall>n. 0 < n \<and> n < (sz - 1) div step + 1 \<longrightarrow>
                  touch_loop buffer n (Slot (sz - 1 - step)) \<noteq> Inr (Slot (sz - 1 - step))) \<and>
               (\<forall>n. \<exists>k < sz. touch_loop buffer n (Slot (sz - 1 - step)) = Inr (Slot k) \<and>
                  k mod step = (sz - 1) mod step)))"
proof (intro conjI impI)
  assume "sz \<le> step \<and> step \<le> 2 ^ 63 + sz - 1"
  then show "mkTestBuffer sz step = Some (Inr (replicate sz Null))"
    using assms(1,2) by (intro mkTestBuffer_all_null) simp_all
  show "\<forall>n. touchTestBuffer (replicate sz Null) n = Inl NullDeref"
    using touchTestBuffer_all_null [OF assms(1)] by blast
  show "\<forall>n clk t. n \<le> vector_max_size \<longrightarrow>
          touchTestBufferTimed clk t (replicate sz Null) n = Inl NullDeref"
    using touchTestBufferTimed_all_null [OF assms(1)] by blast
next
  assume "2 ^ 63 + sz - 1 < step \<and> step < 2 ^ 64"
  then show "mkTestBuffer sz step = Some (Inl OutOfBounds)"
    using assms(1,2) by (intro mkTestBuffer_wrapped) simp_all
next
  assume lt: "step < sz"
  let ?L = "cycle_len sz step"
  let ?b = "chain sz step"
  let ?s = "Slot (sz - 1 - step)"
  have L: "(sz - 1) div step + 1 = ?L" by (simp add: cycle_len_def)
  have one: "1 < ?L"
    using assms(3) lt by (simp add: cycle_len_def div_greater_zero_iff)
  have s: "sz - 1 - step = cycle_pos sz step 1" by (simp add: cycle_pos_def)
  have walk: "touch_loop ?b n ?s = Inr (Slot (cycle_pos sz step ((1 + n) mod ?L)))" for n
    unfolding s by (rule touch_loop_chain [OF assms(3) lt one])
  have 1: "mkTestBuffer sz step = Some (Inr ?b)"
    by (rule mkTestBuffer_chain [OF assms(3) lt assms(2)])
  have 2: "?b ! (sz - 1) = ?s"
    using assms(1,3) lt by (simp add: chain_nth)
  have m: "(1 + ?L) mod ?L = 1"
    using one by (simp only: mod_add_self2 mod_less)
  have 3: "touch_loop ?b ?L ?s = Inr ?s"
    using walk [of ?L] by (simp only: m s)
  have 4: "touch_loop ?b n ?s \<noteq> Inr ?s" if "0 < n \<and> n < ?L" for n
  proof
    assume "touch_loop ?b n ?s = Inr ?s"
    then have "Inr (Slot (cycle_pos sz step ((1 + n) mod ?L))) = (Inr ?s :: error + ptr)"
      unfolding walk .
    then have "cycle_pos sz step ((1 + n) mod ?L) = sz - 1 - step"
      by (simp only: sum.inject ptr.inject)
    then have "cycle_pos sz step ((1 + n) mod ?L) = cycle_pos sz step 1"
      by (simp only: s)
    moreover have "(1 + n) mod ?L < ?L" using one by simp
    ultimately have e: "(1 + n) mod ?L = 1"
      using cycle_pos_inj [OF assms(3,1) _ one] by blast
    show False
    proof (cases "1 + n < ?L")
      case True
      with e that show False by simp
    next
      case False
      with that have "1 + n = ?L" by simp
      with e show False by simp
    qed
  qed
  have 5: "\<exists>k < sz. touch_loop ?b n ?s = Inr (Slot k) \<and> k mod step = (sz - 1) mod step" for n
  proof -
    have "(1 + n) mod ?L < ?L" using one by simp
    from cycle_pos_bounds(2,3) [OF assms(1) this] walk [of n]
    show ?thesis by blast
  qed
  show "\<exists>buffer. mkTestBuffer sz step = Some (Inr buffer) \<and>
               buffer ! (sz - 1) = Slot (sz - 1 - step) \<and>
               touch_loop buffer ((sz - 1) div step + 1) (Slot (sz - 1 - step))
                 = Inr (Slot (sz - 1 - step)) \<and>
               (\<forall>n. 0 < n \<and> n < (sz - 1) div step + 1 \<longrightarrow>
                  touch_loop buffer n (Slot (sz - 1 - step)) \<noteq> Inr (Slot (sz - 1 - step))) \<and>
               (\<forall>n. \<exists>k < sz. touch_loop buffer n (Slot (sz - 1 - step)) = Inr (Slot k) \<and>
                  k mod step = (sz - 1) mod step)"
    unfolding L using 1 2 3 4 5 by blast
qed

theorem degenerate_or_strided_chain_witness:
  "mkTestBuffer 3 5 = Some (Inr [Null, Null, Null]) \<and>
   touchTestBuffer [Null, Null, Null] 4 = Inl NullDeref \<and>
   touchTestBufferTimed still_clock 0 [Null, Null, Null] 4 = Inl NullDeref \<and>
   mkTestBuffer 3 9223372036854775811 = Some (Inl OutOfBounds) \<and>
   mkTestBuffer 3 2 = Some (Inr [Slot 2, Null, Slot 0]) \<and>
   touch_loop [Slot 2, Null, Slot 0] 2 (Slot 0) = Inr (Slot 0)"
proof -
  have h: "(0::nat) < 3" "(3::nat) \<le> vector_max_size" "(0::nat) < 5"
    "(0::nat) < 9223372036854775811" "(0::nat) < 2"
    by (simp_all add: vector_max_size_def)
  have le: "(3::nat) \<le> 5 \<and> (5::nat) \<le> 2 ^ 63 + 3 - 1"
    and far: "(2::nat) ^ 63 + 3 - 1 < 9223372036854775811 \<and>
              (9223372036854775811::nat) < 2 ^ 64"
    and lt: "(2::nat) < 3" and n: "(4::nat) \<le> vector_max_size"
    by (simp_all add: vector_max_size_def)
  note d = degenerate_or_strided_chain [OF h(1,2,3), THEN conjunct1, rule_format, OF le]
  note w = degenerate_or_strided_chain [OF h(1,2,4), THEN conjunct2, THEN conjunct1,
      rule_format, OF far]
  note c = degenerate_or_strided_chain [OF h(1,2,5), THEN conjunct2, THEN conjunct2,
      rule_format, OF lt]
  have 1: "mkTestBuffer 3 5 = Some (Inr [Null, Null, Null])"
    using d unfolding replicate_3 by blast
  have 2: "touchTestBuffer [Null, Null, Null] 4 = Inl NullDeref"
    using d unfolding replicate_3 by blast
  have 3: "touchTestBufferTimed still_clock 0 [Null, Null, Null] 4 = Inl NullDeref"
    using d n unfolding replicate_3 by blast
  from c obtain buffer where b: "mkTestBuffer 3 2 = Some (Inr buffer)"
    and r: "touch_loop buffer ((3 - 1) div 2 + 1) (Slot (3 - 1 - 2)) = Inr (Slot (3 - 1 - 2))"
    by blast
  have buffer: "buffer = [Slot 2, Null, Slot 0]"
    using b unfolding mkTestBuffer_3_2 by simp
  have 4: "touch_loop [Slot 2, Null, Slot 0] 2 (Slot 0) = Inr (Slot 0)"
    using r unfolding buffer by (simp del: touch_loop.simps add: numeral_2_eq_2)
  show ?thesis
    using 1 2 3 4 w mkTestBuffer_3_2 by blast
qed

text \<open>
  Claim C9 says that for every buffer and hop count \<open>touchTestBufferTimed\<close> visits the same
  sequence of positions as \<open>touchTestBuffer\<close> and returns the same final value. Before its
  first hop \<open>touchTestBufferTimed\<close> reserves room for \<open>nTouches\<close> timings, which
  \<open>touchTestBuffer\<close> does not. On the three-slot buffer of stride 2 and \<open>2 ^ 60\<close> hops, one
  more than a vector of 8-byte elements can hold, the reservation fails and the timed
  traversal returns nothing, while the bulk traversal returns the address of the entry
  slot.
\<close>

theorem reserve_fails_before_first_hop_counterexample:
  "mkTestBuffer 3 2 = Some (Inr [Slot 2, Null, Slot 0]) \<and>
   touchTestBufferTimed still_clock 0 [Slot 2, Null, Slot 0] 1152921504606846976
     = Inl AllocFailed \<and>
   touchTestBuffer [Slot 2, Null, Slot 0] 1152921504606846976 = Inr (Slot 2)"
proof -
  have timed: "touchTestBufferTimed still_clock 0 [Slot 2, Null, Slot 0] 1152921504606846976
        = Inl AllocFailed"
    by (simp add: touchTestBufferTimed_def size_t_sub_def vector_max_size_def)
  have "cycle_len 3 2 = 2"
    by (simp add: cycle_len_def)
  then have "cycle_pos 3 2 ((1152921504606846976 + 2) mod cycle_len 3 2) = 2"
    by (simp add: cycle_pos_def)
  then have bulk: "touchTestBuffer [Slot 2, Null, Slot 0] 1152921504606846976 = Inr (Slot 2)"
    using touchTestBuffer_chain [of 2 3 1152921504606846976]
    by (simp only: chain_3_2)
  show ?thesis
    using timed bulk mkTestBuffer_3_2 by simp
qed

text \<open>
  Claim C9, amended. For every buffer and every hop count \<open>n\<close> that the reservation of the
  timing vector admits (\<open>n \<le> 2 ^ 60 - 1\<close>), \<open>touchTestBufferTimed\<close> and \<open>touchTestBuffer\<close>
  follow the same chain: they return the same landing value, or fail in the same way; a
  timing series that is returned has exactly \<open>n\<close> entries; and on every buffer built with
  \<open>1 \<le> step < size\<close> both do return.
\<close>

theorem timed_traversal_agrees_with_bulk:
  assumes "n \<le> vector_max_size"
  shows "map_sum id (\<lambda>r. snd (fst r)) (touchTestBufferTimed clk t buffer n)
           = touchTestBuffer buffer n \<and>
   (\<forall>tms p t'. touchTestBufferTimed clk t buffer n = Inr ((tms, p), t') \<longrightarrow> length tms = n) \<and>
   (0 < step \<and> step < sz \<and> sz \<le> vector_max_size \<longrightarrow>
      (\<exists>built tms p t'. mkTestBuffer sz step = Some (Inr built) \<and>
         touchTestBufferTimed clk t built n = Inr ((tms, p), t') \<and>
         touchTestBuffer built n = Inr p \<and> length tms = n))"
proof (intro conjI impI allI)
  show "map_sum id (\<lambda>r. snd (fst r)) (touchTestBufferTimed clk t buffer n) = touchTestBuffer buffer n"
    by (rule touchTestBufferTimed_pos [OF assms])
next
  fix tms p t'
  assume "touchTestBufferTimed clk t buffer n = Inr ((tms, p), t')"
  then show "length tms = n" by (rule touchTestBufferTimed_length)
next
  assume a: "0 < step \<and> step < sz \<and> sz \<le> vector_max_size"
  let ?b = "chain sz step"
  let ?p = "Slot (cycle_pos sz step ((n + 2) mod cycle_len sz step))"
  have b: "mkTestBuffer sz step = Some (Inr ?b)"
    using a by (intro mkTestBuffer_chain) auto
  have bulk: "touchTestBuffer ?b n = Inr ?p"
    using a by (intro touchTestBuffer_chain) auto
  have "map_sum id (\<lambda>r. snd (fst r)) (touchTestBufferTimed clk t ?b n) = Inr ?p"
    by (simp only: touchTestBufferTimed_pos [OF assms] bulk)
  then obtain r where r: "touchTestBufferTimed clk t ?b n = Inr r" "snd (fst r) = ?p"
    by (cases "touchTestBufferTimed clk t ?b n") auto
  obtain tms p t' where rr: "r = ((tms, p), t')" by (cases r) auto
  have "length tms = n"
    using r(1) unfolding rr by (rule touchTestBufferTimed_length)
  then show "\<exists>built tms p t'. mkTestBuffer sz step = Some (Inr built) \<and>
         touchTestBufferTimed clk t built n = Inr ((tms, p), t') \<and>
         touchTestBuffer built n = Inr p \<and> length tms = n"
    using b bulk r rr by auto
qed

lemma to_ll_0: "to_ll 0 = 0"
  by (simp add: to_ll_def)

lemma touchTestBufferTimed_example:
  "touchTestBufferTimed still_clock 0 [Slot 2, Null, Slot 0] 3 = Inr (([0, 0, 0], Slot 0), 6)"
  by (simp add: touchTestBufferTimed_def size_t_sub_def numeral_3_eq_3 deref_def still_clock_def
      vector_max_size_def to_ll_0)

lemma touchTestBuffer_example:
  "touchTestBuffer [Slot 2, Null, Slot 0] 3 = Inr (Slot 0)"
  by (simp add: touchTestBuffer_def size_t_sub_def numeral_3_eq_3 deref_def)

theorem timed_traversal_agrees_with_bulk_witness:
  "(3::nat) \<le> vector_max_size \<and>
   touchTestBufferTimed still_clock 0 [Slot 2, Null, Slot 0] 3 = Inr (([0, 0, 0], Slot 0), 6) \<and>
   touchTestBuffer [Slot 2, Null, Slot 0] 3 = Inr (Slot 0) \<and>
   length [0, 0, 0 :: int] = 3 \<and>
   (0::nat) < 2 \<and> (2::nat) < 3 \<and>
   mkTestBuffer 3 2 = Some (Inr [Slot 2, Null, Slot 0])"
proof -
  have n: "(3::nat) \<le> vector_max_size"
    by (simp add: vector_max_size_def)
  note t = timed_traversal_agrees_with_bulk [OF n, of still_clock 0 "[Slot 2, Null, Slot 0]" 2 3]
  have 1: "touchTestBuffer [Slot 2, Null, Slot 0] 3 = Inr (Slot 0)"
    using t [THEN conjunct1] unfolding touchTestBufferTimed_example by simp
  have 2: "length [0, 0, 0 :: int] = 3"
    using t [THEN conjunct2, THEN conjunct1, rule_format, OF touchTestBufferTimed_example] .
  have h: "(0::nat) < 2 \<and> (2::nat) < 3 \<and> (3::nat) \<le> vector_max_size"
    by (simp add: vector_max_size_def)
  from t [THEN conjunct2, THEN conjunct2, rule_format, OF h]
  obtain built where "mkTestBuffer 3 2 = Some (Inr built)" by blast
  then have "mkTestBuffer 3 2 = Some (Inr [Slot 2, Null, Slot 0])"
    unfolding mkTestBuffer_3_2 by simp
  then show ?thesis
    using 1 2 h touchTestBufferTimed_example by blast
qed

section \<open>Properties of the Cache-Size Inference\<close>

lemma to_ll_fits: "fits_ll x \<Longrightarrow> to_ll x = x"
  by (simp add: fits_ll_def to_ll_id)

lemma to_ll_add_left: "to_ll (to_ll a + b) = to_ll (a + b)"
proof -
  have "to_ll a + b + 2 ^ 63 = (a + 2 ^ 63) mod 2 ^ 64 + b"
    by (simp add: to_ll_def)
  then have "(to_ll a + b + 2 ^ 63) mod 2 ^ 64 = ((a + 2 ^ 63) mod 2 ^ 64 + b) mod 2 ^ 64"
    by (simp only:)
  also have "\<dots> = (a + 2 ^ 63 + b) mod 2 ^ 64"
    by (rule mod_add_left_eq)
  also have "a + 2 ^ 63 + b = a + b + 2 ^ 63"
    by simp
  finally show ?thesis
    by (simp only: to_ll_def)
qed

lemma to_ll_idem: "to_ll (to_ll a) = to_ll a"
  using to_ll_add_left [of a 0] by simp

lemma to_ll_sum_step: "to_ll (to_ll (acc + to_ll (b - a)) + c - b) = to_ll (acc + c - a)"
proof -
  have "to_ll (acc + to_ll (b - a)) + c - b = to_ll (acc + to_ll (b - a)) + (c - b)"
    by simp
  then have "to_ll (to_ll (acc + to_ll (b - a)) + c - b) = to_ll (acc + to_ll (b - a) + (c - b))"
    by (simp only: to_ll_add_left)
  also have "acc + to_ll (b - a) + (c - b) = to_ll (b - a) + (acc + c - b)"
    by simp
  also have "to_ll (to_ll (b - a) + (acc + c - b)) = to_ll (b - a + (acc + c - b))"
    by (rule to_ll_add_left)
  also have "b - a + (acc + c - b) = acc + c - a"
    by simp
  finally show ?thesis .
qed

lemma to_ll_sum_last: "to_ll (to_ll (b - a) + a - c) = to_ll (b - c)"
proof -
  have "to_ll (b - a) + a - c = to_ll (b - a) + (a - c)"
    by simp
  then have "to_ll (to_ll (b - a) + a - c) = to_ll (b - a + (a - c))"
    by (simp only: to_ll_add_left)
  also have "b - a + (a - c) = b - c"
    by simp
  finally show ?thesis .
qed

lemma windowed_loop_done:
  "bound \<le> i \<Longrightarrow> windowed_loop diffs windowSize bound i windowed = Inr windowed"
  by (subst windowed_loop.simps) simp

lemma windowed_loop_oob:
  "i < bound \<Longrightarrow> length diffs < bound \<Longrightarrow>
   windowed_loop diffs windowSize bound i windowed = Inl OutOfBounds"
proof (induction "length diffs - i" arbitrary: i windowed)
  case 0
  then show ?case by (subst windowed_loop.simps) simp
next
  case (Suc n)
  have "windowed_loop diffs windowSize bound (i + 1)
          (windowed @ [\<lparr>arraySizeBytes = arraySizeBytes (diffs ! i),
             timeNanos = window_sum diffs (size_t_sub (i + 1) windowSize) i (timeNanos (diffs ! i))\<rparr>])
        = Inl OutOfBounds"
    using Suc.prems Suc.hyps(2) by (intro Suc.hyps(1)) auto
  moreover have "i < length diffs" using Suc.hyps(2) by simp
  ultimately show ?case
    using Suc.prems by (subst windowed_loop.simps) (simp add: Let_def)
qed

lemma windowed_loop_map:
  "i \<le> bound \<Longrightarrow> bound \<le> length diffs \<Longrightarrow>
   windowed_loop diffs windowSize bound i windowed =
     Inr (windowed @ map (\<lambda>k. \<lparr>arraySizeBytes = arraySizeBytes (diffs ! k),
             timeNanos = window_sum diffs (size_t_sub (k + 1) windowSize) k (timeNanos (diffs ! k))\<rparr>)
           [i..<bound])"
proof (induction "bound - i" arbitrary: i windowed)
  case 0
  then show ?case by (subst windowed_loop.simps) simp
next
  case (Suc n)
  have lt: "i < bound" using Suc.hyps(2) by simp
  have "windowed_loop diffs windowSize bound (i + 1)
          (windowed @ [\<lparr>arraySizeBytes = arraySizeBytes (diffs ! i),
             timeNanos = window_sum diffs (size_t_sub (i + 1) windowSize) i (timeNanos (diffs ! i))\<rparr>])
        = Inr ((windowed @ [\<lparr>arraySizeBytes = arraySizeBytes (diffs ! i),
             timeNanos = window_sum diffs (size_t_sub (i + 1) windowSize) i (timeNanos (diffs ! i))\<rparr>])
           @ map (\<lambda>k. \<lparr>arraySizeBytes = arraySizeBytes (diffs ! k),
             timeNanos = window_sum diffs (size_t_sub (k + 1) windowSize) k (timeNanos (diffs ! k))\<rparr>)
           [i + 1..<bound])"
    using Suc.prems Suc.hyps(2) by (intro Suc.hyps(1)) auto
  moreover have "[i..<bound] = i # [i + 1..<bound]"
    using lt by (simp add: upt_conv_Cons)
  ultimately show ?case
    using Suc.prems lt by (subst windowed_loop.simps) (simp add: Let_def)
qed

lemma diffs_loop_map:
  "diffs_loop infos i diffs = diffs @ map (diff_at infos) [i..<length infos]"
proof (induction "length infos - i" arbitrary: i diffs)
  case 0
  then show ?case by (subst diffs_loop.simps) simp
next
  case (Suc n)
  have lt: "i < length infos" using Suc.hyps(2) by simp
  have "diffs_loop infos (i + 1) (diffs @ [diff_at infos i])
        = (diffs @ [diff_at infos i]) @ map (diff_at infos) [i + 1..<length infos]"
    using Suc.hyps(2) by (intro Suc.hyps(1)) simp
  moreover have "[i..<length infos] = i # [i + 1..<length infos]"
    using lt by (simp add: upt_conv_Cons)
  ultimately show ?case
    using lt by (subst diffs_loop.simps) (simp add: Let_def diff_at_def)
qed

lemma diffs_loop_1:
  "diffs_loop infos 1 [] = map (diff_at infos) [1..<length infos]"
  by (simp add: diffs_loop_map)

lemma window_sum_telescope:
  assumes "j \<le> i" "i < length infos - 1" "to_ll acc = acc"
  shows "window_sum (map (diff_at infos) [1..<length infos]) j i acc
         = to_ll (acc + timeNanos (infos ! i) - timeNanos (infos ! j))"
proof -
  define D where "D = map (diff_at infos) [1..<length infos]"
  have nth: "timeNanos (D ! k) = to_ll (timeNanos (infos ! (k + 1)) - timeNanos (infos ! k))"
    if "k < i" for k
    using that assms(2) by (simp add: D_def diff_at_def)
  have "window_sum D j i acc = to_ll (acc + timeNanos (infos ! i) - timeNanos (infos ! j))"
    using assms(1,3)
  proof (induction "i - j" arbitrary: j acc)
    case 0
    then have "j = i" by simp
    then show ?case
      using "0.prems"(2) by (subst window_sum.simps) simp
  next
    case (Suc n)
    have lt: "j < i" using Suc.hyps(2) by simp
    let ?acc = "to_ll (acc + timeNanos (D ! j))"
    have "window_sum D (j + 1) i ?acc
          = to_ll (?acc + timeNanos (infos ! i) - timeNanos (infos ! (j + 1)))"
      using Suc.hyps(2) lt by (intro Suc.hyps(1)) (auto simp add: to_ll_idem)
    also have "\<dots> = to_ll (acc + timeNanos (infos ! i) - timeNanos (infos ! j))"
      by (simp only: nth [OF lt] to_ll_sum_step)
    finally show ?case
      using lt by (subst window_sum.simps) (simp only: if_True)
  qed
  then show ?thesis by (simp only: D_def)
qed

lemma windowed_series_long:
  assumes "1 \<le> windowSize" "3 \<le> length infos"
  shows "windowed_series infos windowSize
         = Inr (map (window_at infos windowSize) [0..<length infos - windowSize - 2])"
proof -
  let ?n = "length infos"
  define D where "D = map (diff_at infos) [1..<?n]"
  have lenD: "length D = ?n - 1" by (simp add: D_def)
  have "2 \<le> ?n - 1" and "?n - 1 - 2 = ?n - 3"
    using assms(2) by arith+
  then have bound: "size_t_sub (length D) 2 = ?n - 3"
    by (simp only: size_t_sub_def lenD if_True)
  have start: "size_t_sub windowSize 1 = windowSize - 1"
    using assms(1) by (simp add: size_t_sub_def)
  let ?g = "\<lambda>k. \<lparr>arraySizeBytes = arraySizeBytes (D ! k),
             timeNanos = window_sum D (size_t_sub (k + 1) windowSize) k (timeNanos (D ! k))\<rparr>"
  have ws: "windowed_series infos windowSize = windowed_loop D windowSize (?n - 3) (windowSize - 1) []"
    by (simp only: windowed_series_def diffs_loop_1 Let_def D_def [symmetric] bound start)
  show ?thesis
  proof (cases "windowSize - 1 \<le> ?n - 3")
    case False
    then have "windowed_loop D windowSize (?n - 3) (windowSize - 1) [] = Inr []"
      by (intro windowed_loop_done) simp
    moreover have "?n - windowSize - 2 = 0" using False by simp
    ultimately show ?thesis by (simp add: ws)
  next
    case True
    have g: "?g (q + (windowSize - 1)) = window_at infos windowSize q"
      if "q < ?n - windowSize - 2" for q
    proof -
      let ?k = "q + (windowSize - 1)"
      have k: "?k + 1 = q + windowSize" using assms(1) by simp
      have kn: "?k < ?n - 1" using that by simp
      have "size_t_sub (q + windowSize) windowSize = q"
        by (simp add: size_t_sub_def)
      then have sub: "size_t_sub (?k + 1) windowSize = q"
        by (simp only: k)
      have Dk: "D ! ?k = diff_at infos (q + windowSize)"
        using kn k by (simp add: D_def)
      have pred: "q + windowSize - 1 = ?k" using assms(1) by simp
      have tk: "timeNanos (D ! ?k)
            = to_ll (timeNanos (infos ! (q + windowSize)) - timeNanos (infos ! ?k))"
        by (simp only: Dk diff_at_def pred RawLevelInfo.simps)
      have idem: "to_ll (timeNanos (D ! ?k)) = timeNanos (D ! ?k)"
        by (simp only: tk to_ll_idem)
      have "window_sum D q ?k (timeNanos (D ! ?k))
            = to_ll (timeNanos (D ! ?k) + timeNanos (infos ! ?k) - timeNanos (infos ! q))"
        unfolding D_def
      proof (rule window_sum_telescope)
        show "q \<le> ?k" by simp
        show "?k < ?n - 1" by (rule kn)
        show "to_ll (timeNanos (map (diff_at infos) [1..<?n] ! ?k))
              = timeNanos (map (diff_at infos) [1..<?n] ! ?k)"
          using idem unfolding D_def .
      qed
      also have "\<dots> = to_ll (timeNanos (infos ! (q + windowSize)) - timeNanos (infos ! q))"
        by (simp only: tk to_ll_sum_last)
      finally have "window_sum D q ?k (timeNanos (D ! ?k))
            = to_ll (timeNanos (infos ! (q + windowSize)) - timeNanos (infos ! q))" .
      moreover have "arraySizeBytes (D ! ?k) = arraySizeBytes (infos ! (q + windowSize))"
        by (simp only: Dk diff_at_def RawLevelInfo.simps)
      ultimately have "\<lparr>arraySizeBytes = arraySizeBytes (D ! ?k),
             timeNanos = window_sum D q ?k (timeNanos (D ! ?k))\<rparr> = window_at infos windowSize q"
        by (simp only: window_at_def)
      then show ?thesis by (simp only: sub)
    qed
    have "windowed_loop D windowSize (?n - 3) (windowSize - 1) []
          = Inr ([] @ map ?g [windowSize - 1..<?n - 3])"
      using True by (intro windowed_loop_map) (simp_all add: lenD)
    moreover have "[windowSize - 1..<?n - 3]
          = map (\<lambda>q. q + (windowSize - 1)) [0..<?n - windowSize - 2]"
    proof -
      have "?n - windowSize - 2 + (windowSize - 1) = ?n - 3"
        using True assms by simp
      then show ?thesis
        using map_add_upt [of "windowSize - 1" "?n - windowSize - 2"] by simp
    qed
    moreover have "map ?g (map (\<lambda>q. q + (windowSize - 1)) [0..<?n - windowSize - 2])
          = map (window_at infos windowSize) [0..<?n - windowSize - 2]"
      unfolding map_map
    proof (rule map_cong [OF refl])
      fix q
      assume "q \<in> set [0..<?n - windowSize - 2]"
      then have "q < ?n - windowSize - 2" by simp
      from g [OF this]
      show "(?g \<circ> (\<lambda>q. q + (windowSize - 1))) q = window_at infos windowSize q"
        by (simp only: o_def)
    qed
    ultimately show ?thesis by (simp add: ws)
  qed
qed

lemma windowed_series_short:
  assumes "2 \<le> windowSize" "length infos < 3"
  shows "windowed_series infos windowSize
         = (if windowSize - 1 < length infos - 1 + 2 ^ 64 - 2 then Inl OutOfBounds else Inr [])"
proof -
  let ?n = "length infos"
  define D where "D = map (diff_at infos) [1..<?n]"
  have lenD: "length D = ?n - 1" by (simp add: D_def)
  have "\<not> 2 \<le> ?n - 1"
    using assms(2) by arith
  then have bound: "size_t_sub (length D) 2 = ?n - 1 + 2 ^ 64 - 2"
    by (simp only: size_t_sub_def lenD if_False)
  have start: "size_t_sub windowSize 1 = windowSize - 1"
    using assms(1) by (simp add: size_t_sub_def)
  have ws: "windowed_series infos windowSize
            = windowed_loop D windowSize (?n - 1 + 2 ^ 64 - 2) (windowSize - 1) []"
    by (simp only: windowed_series_def diffs_loop_1 Let_def D_def [symmetric] bound start)
  show ?thesis
  proof (cases "windowSize - 1 < ?n - 1 + 2 ^ 64 - 2")
    case True
    moreover have "length D < ?n - 1 + 2 ^ 64 - 2" by (simp add: lenD)
    ultimately have "windowed_loop D windowSize (?n - 1 + 2 ^ 64 - 2) (windowSize - 1) []
          = Inl OutOfBounds"
      by (rule windowed_loop_oob)
    then show ?thesis using True by (simp only: ws if_True)
  next
    case False
    then have "windowed_loop D windowSize (?n - 1 + 2 ^ 64 - 2) (windowSize - 1) [] = Inr []"
      by (intro windowed_loop_done) simp
    then show ?thesis using False by (simp only: ws if_False)
  qed
qed

lemma max_element_loop_key:
  fixes key :: "'a \<Rightarrow> int"
  shows "max_element_loop (\<lambda>x y. key x < key y) l xs \<in> set (l # xs) \<and>
         (\<forall>x \<in> set (l # xs). key x \<le> key (max_element_loop (\<lambda>x y. key x < key y) l xs))"
proof (induction xs arbitrary: l)
  case Nil
  show ?case by simp
next
  case (Cons x xs)
  let ?l = "if key l < key x then x else l"
  from Cons.IH [of ?l] show ?case
    by (cases "key l < key x") auto
qed

lemma max_element_key:
  fixes key :: "'a \<Rightarrow> int"
  assumes "xs \<noteq> []"
  shows "\<exists>m. max_element (\<lambda>x y. key x < key y) xs = Some m \<and> m \<in> set xs \<and>
           (\<forall>x \<in> set xs. key x \<le> key m)"
proof -
  from assms obtain l rest where xs: "xs = l # rest" by (cases xs) auto
  show ?thesis
    using max_element_loop_key [of key l rest] by (simp add: max_element_def xs)
qed

lemma windowed_loop_no_assert:
  "windowed_loop diffs windowSize bound i windowed \<noteq> Inl AssertionFailed"
proof -
  consider "bound \<le> i" | "i < bound" "bound \<le> length diffs" | "i < bound" "length diffs < bound"
    by linarith
  then show ?thesis
  proof cases
    case 1
    then show ?thesis by (simp add: windowed_loop_done)
  next
    case 2
    then show ?thesis by (simp add: windowed_loop_map)
  next
    case 3
    then show ?thesis by (simp add: windowed_loop_oob)
  qed
qed

text \<open>
  Claim C8. Violated preconditions fail by assertion, and only they do: \<open>mkTestBuffer\<close>
  ends in a failed assertion exactly when \<open>size\<close> or \<open>step\<close> is 0, and
  \<open>selectCacheSize\<close> exactly when \<open>windowSize\<close> is below 2. The functions have no error
  value of their own: with valid arguments the assertion does not fire.
\<close>

theorem assertions_exactly_on_violated_preconditions:
  "(mkTestBuffer sz step = Some (Inl AssertionFailed) \<longleftrightarrow> sz = 0 \<or> step = 0) \<and>
   (selectCacheSize infos windowSize = Inl AssertionFailed \<longleftrightarrow> windowSize < 2)"
proof -
  have "mkTestBuffer sz step = Some (Inl AssertionFailed)" if "sz = 0 \<or> step = 0"
    using that by (auto simp add: mkTestBuffer_def)
  moreover have "sz = 0 \<or> step = 0" if a: "mkTestBuffer sz step = Some (Inl AssertionFailed)"
  proof (rule ccontr)
    assume n: "\<not> (sz = 0 \<or> step = 0)"
    show False
    proof (cases "sz > vector_max_size")
      case True
      with n a show False by (simp add: mkTestBuffer_def)
    next
      case False
      with n a have "mkTestBuffer_loop sz step (replicate sz Null)
             (to_ll (int sz - 1)) (to_ll (int sz - 1 - int step)) = Some (Inl AssertionFailed)"
        by (simp add: mkTestBuffer_def)
      then show False using mkTestBuffer_loop_no_assert by blast
    qed
  qed
  moreover have "selectCacheSize infos windowSize = Inl AssertionFailed" if "windowSize < 2"
    using that by (simp add: selectCacheSize_def)
  moreover have "windowSize < 2" if a: "selectCacheSize infos windowSize = Inl AssertionFailed"
  proof (rule ccontr)
    assume n: "\<not> windowSize < 2"
    show False
    proof (cases "windowed_series infos windowSize")
      case (Inl e)
      then have "e \<noteq> AssertionFailed"
        using windowed_loop_no_assert by (auto simp add: windowed_series_def Let_def)
      with Inl n a show False by (simp add: selectCacheSize_def)
    next
      case (Inr w)
      with n a show False by (simp add: selectCacheSize_def split: option.splits)
    qed
  qed
  ultimately show ?thesis by blast
qed

theorem assertions_exactly_on_violated_preconditions_witness:
  "mkTestBuffer 0 1 = Some (Inl AssertionFailed) \<and>
   mkTestBuffer 3 2 \<noteq> Some (Inl AssertionFailed) \<and>
   selectCacheSize [] 1 = Inl AssertionFailed \<and>
   selectCacheSize [] 3 \<noteq> Inl AssertionFailed"
  using assertions_exactly_on_violated_preconditions [of 0 1 "[]" 1]
    assertions_exactly_on_violated_preconditions [of 3 2 "[]" 3]
  by simp

lemma selectCacheSize_empty_windowed:
  assumes "2 \<le> windowSize" "windowed_series infos windowSize = Inr []"
  shows "selectCacheSize infos windowSize = Inl EmptyRange"
  using assms by (simp add: selectCacheSize_def max_element_def)

lemma selectCacheSize_error:
  assumes "2 \<le> windowSize" "windowed_series infos windowSize = Inl e"
  shows "selectCacheSize infos windowSize = Inl e"
  using assms by (simp add: selectCacheSize_def)

lemma selectCacheSize_max:
  assumes "2 \<le> windowSize" "windowed_series infos windowSize = Inr windowed" "windowed \<noteq> []"
  shows "\<exists>m. m \<in> set windowed \<and> selectCacheSize infos windowSize = Inr (arraySizeBytes m) \<and>
           (\<forall>x \<in> set windowed. timeNanos x \<le> timeNanos m)"
proof -
  from max_element_key [OF assms(3), of timeNanos]
  obtain m where m: "max_element (\<lambda>x y. timeNanos x < timeNanos y) windowed = Some m"
    "m \<in> set windowed" "\<forall>x \<in> set windowed. timeNanos x \<le> timeNanos m"
    by blast
  have "selectCacheSize infos windowSize = Inr (arraySizeBytes m)"
    using assms(1,2) m(1) by (simp add: selectCacheSize_def)
  with m(2,3) show ?thesis by blast
qed

text \<open>
  Claim C5 says that the windowed series is empty exactly when the input has fewer than
  \<open>windowSize + 2\<close> points, and that with at least \<open>windowSize + 2\<close> points the selection
  of the maximum never reads past the end. With \<open>windowSize = 3\<close> and five points the
  window loop runs from \<open>i = 2\<close> while \<open>i < 4 - 2\<close>, that is not at all: the windowed
  series is empty and \<open>std::max_element\<close> returns the end iterator, which is dereferenced.
\<close>

theorem five_points_leave_no_window_counterexample:
  "length five_points = 3 + 2 \<and>
   windowed_series five_points 3 = Inr [] \<and>
   selectCacheSize five_points 3 = Inl EmptyRange"
proof -
  have len: "length five_points = 5" by (simp add: five_points_def)
  have w: "windowed_series five_points 3 = Inr []"
    using windowed_series_long [of 3 five_points] by (simp add: len)
  have "selectCacheSize five_points 3 = Inl EmptyRange"
    using w by (intro selectCacheSize_empty_windowed) simp_all
  with len w show ?thesis by simp
qed

text \<open>
  Claim C5, amended. For \<open>windowSize \<ge> 2\<close> the windowed series is non-empty exactly when
  the input has at least \<open>windowSize + 3\<close> points; it then has
  \<open>length infos - windowSize - 2\<close> elements and \<open>selectCacheSize\<close> returns the size of one
  of them. With at least 3 but fewer than \<open>windowSize + 3\<close> points the windowed series is
  empty and the selection dereferences the end iterator. With fewer than 3 points and
  \<open>windowSize < 2 ^ 64 - 1\<close> the bound \<open>diffs.size() - 2\<close> wraps around and the window
  loop reads \<open>diffs\<close> out of bounds.
\<close>

theorem windowed_series_needs_three_more_points:
  assumes "2 \<le> windowSize"
  shows "((\<exists>windowed. windowed_series infos windowSize = Inr windowed \<and> windowed \<noteq> [])
            = (windowSize + 3 \<le> length infos)) \<and>
         (windowSize + 3 \<le> length infos \<longrightarrow>
            (\<exists>windowed m. windowed_series infos windowSize = Inr windowed \<and>
               length windowed = length infos - windowSize - 2 \<and> m \<in> set windowed \<and>
               selectCacheSize infos windowSize = Inr (arraySizeBytes m))) \<and>
         (3 \<le> length infos \<and> length infos < windowSize + 3 \<longrightarrow>
            windowed_series infos windowSize = Inr [] \<and>
            selectCacheSize infos windowSize = Inl EmptyRange) \<and>
         (length infos < 3 \<and> windowSize < 2 ^ 64 - 1 \<longrightarrow>
            windowed_series infos windowSize = Inl OutOfBounds \<and>
            selectCacheSize infos windowSize = Inl OutOfBounds)"
proof -
  let ?n = "length infos"
  have w1: "1 \<le> windowSize" using assms by simp
  have long: "windowed_series infos windowSize
        = Inr (map (window_at infos windowSize) [0..<?n - windowSize - 2])" if "3 \<le> ?n"
    using windowed_series_long [OF w1 that] .
  have short: "windowed_series infos windowSize = Inl OutOfBounds \<or>
        windowed_series infos windowSize = Inr []" if "?n < 3"
    using windowed_series_short [OF assms that] by (simp split: if_splits)
  have a: "(\<exists>windowed. windowed_series infos windowSize = Inr windowed \<and> windowed \<noteq> [])
            = (windowSize + 3 \<le> ?n)"
  proof (cases "3 \<le> ?n")
    case True
    show ?thesis using long [OF True] by auto
  next
    case False
    then have "?n < 3" by simp
    from short [OF this] False show ?thesis by auto
  qed
  have b: "\<exists>windowed m. windowed_series infos windowSize = Inr windowed \<and>
               length windowed = ?n - windowSize - 2 \<and> m \<in> set windowed \<and>
               selectCacheSize infos windowSize = Inr (arraySizeBytes m)"
    if h: "windowSize + 3 \<le> ?n"
  proof -
    let ?w = "map (window_at infos windowSize) [0..<?n - windowSize - 2]"
    have ws: "windowed_series infos windowSize = Inr ?w" using h by (intro long) simp
    have ne: "?w \<noteq> []" using h by simp
    from selectCacheSize_max [OF assms ws ne]
    obtain m where "m \<in> set ?w" "selectCacheSize infos windowSize = Inr (arraySizeBytes m)"
      by blast
    moreover have "length ?w = ?n - windowSize - 2" by simp
    ultimately show ?thesis using ws by blast
  qed
  have c: "windowed_series infos windowSize = Inr [] \<and>
            selectCacheSize infos windowSize = Inl EmptyRange"
    if h: "3 \<le> ?n \<and> ?n < windowSize + 3"
  proof -
    have "windowed_series infos windowSize = Inr []"
      using long h by simp
    then show ?thesis
      using selectCacheSize_empty_windowed [OF assms] by blast
  qed
  have d: "windowed_series infos windowSize = Inl OutOfBounds \<and>
            selectCacheSize infos windowSize = Inl OutOfBounds"
    if h: "?n < 3 \<and> windowSize < 2 ^ 64 - 1"
  proof -
    have "windowSize - 1 < ?n - 1 + 2 ^ 64 - 2" using h by simp arith
    then have "windowed_series infos windowSize = Inl OutOfBounds"
      using windowed_series_short [OF assms, of infos] h by simp
    then show ?thesis
      using selectCacheSize_error [OF assms] by blast
  qed
  show ?thesis using a b c d by blast
qed

theorem windowed_series_needs_three_more_points_witness:
  "(2::nat) \<le> 3 \<and> 3 + 3 \<le> length six_points \<and>
   selectCacheSize six_points 3 = Inr 32768 \<and>
   3 \<le> length five_points \<and> length five_points < 3 + 3 \<and>
   selectCacheSize five_points 3 = Inl EmptyRange \<and>
   length ([] :: RawLevelInfo list) < 3 \<and> (3::nat) < 2 ^ 64 - 1 \<and>
   selectCacheSize [] 3 = Inl OutOfBounds"
proof -
  have w: "(2::nat) \<le> 3" by simp
  note t6 = windowed_series_needs_three_more_points [OF w, of six_points]
  note t5 = windowed_series_needs_three_more_points [OF w, of five_points]
  note t0 = windowed_series_needs_three_more_points [OF w, of "[]"]
  have h6: "3 + 3 \<le> length six_points"
    by (simp add: six_points_def five_points_def)
  have h5: "3 \<le> length five_points \<and> length five_points < 3 + 3"
    by (simp add: five_points_def)
  have h0: "length ([] :: RawLevelInfo list) < 3 \<and> (3::nat) < 2 ^ 64 - 1"
    by simp
  from t6 [THEN conjunct2, THEN conjunct1, rule_format, OF h6]
  obtain windowed m where ws: "windowed_series six_points 3 = Inr windowed"
    and m: "m \<in> set windowed" "selectCacheSize six_points 3 = Inr (arraySizeBytes m)"
    by blast
  have "windowed_series six_points 3 = Inr [\<lparr>arraySizeBytes = 32768, timeNanos = 30\<rparr>]"
    using windowed_series_long [of 3 six_points]
    by (simp add: six_points_def five_points_def window_at_def to_ll_def)
  with ws m have r6: "selectCacheSize six_points 3 = Inr 32768" by auto
  have r5: "selectCacheSize five_points 3 = Inl EmptyRange"
    using t5 [THEN conjunct2, THEN conjunct2, THEN conjunct1, rule_format, OF h5] by blast
  have r0: "selectCacheSize [] 3 = Inl OutOfBounds"
    using t0 [THEN conjunct2, THEN conjunct2, THEN conjunct2, rule_format, OF h0] by blast
  show ?thesis using w h6 h5 h0 r6 r5 r0 by blast
qed

lemma windowed_series_spike:
  "windowed_series spike_series 3 =
     Inr [\<lparr>arraySizeBytes = 32768, timeNanos = 102\<rparr>, \<lparr>arraySizeBytes = 40960, timeNanos = 3\<rparr>]"
proof -
  have "[0..<length spike_series - 3 - 2] = [0, 1]"
    by (simp add: spike_series_def upt_rec)
  then show ?thesis
    using windowed_series_long [of 3 spike_series]
    by (simp add: spike_series_def window_at_def to_ll_def)
qed

text \<open>
  Claim C4 says that for every series with strictly increasing timings the windowed sums
  are non-decreasing. The series with the timings 0, 100, 101, 102, 103, 104, 105 is
  strictly increasing; with \<open>windowSize = 3\<close> its windowed sums are \<open>102 - 0\<close> and
  \<open>103 - 100\<close>: the second is the smaller one.
\<close>

theorem increasing_series_with_falling_window_counterexample:
  "sorted_wrt (<) (map timeNanos spike_series) \<and>
   windowed_series spike_series 3 =
     Inr [\<lparr>arraySizeBytes = 32768, timeNanos = 102\<rparr>, \<lparr>arraySizeBytes = 40960, timeNanos = 3\<rparr>] \<and>
   \<not> sorted (map timeNanos
     [\<lparr>arraySizeBytes = 32768, timeNanos = 102\<rparr>, \<lparr>arraySizeBytes = 40960, timeNanos = 3\<rparr>])"
proof -
  have "sorted_wrt (<) (map timeNanos spike_series)"
    by (simp add: spike_series_def)
  then show ?thesis
    using windowed_series_spike by simp
qed

lemma window_at_mono:
  assumes convex: "\<forall>k. k + 2 < length infos \<longrightarrow>
      timeNanos (infos ! (k + 1)) - timeNanos (infos ! k)
        \<le> timeNanos (infos ! (k + 2)) - timeNanos (infos ! (k + 1))"
    and "q + windowSize + 1 < length infos"
    and "fits_ll (timeNanos (infos ! (q + windowSize)) - timeNanos (infos ! q))"
    and "fits_ll (timeNanos (infos ! (Suc q + windowSize)) - timeNanos (infos ! Suc q))"
  shows "timeNanos (window_at infos windowSize q) \<le> timeNanos (window_at infos windowSize (Suc q))"
proof -
  let ?d = "\<lambda>k. timeNanos (infos ! (k + 1)) - timeNanos (infos ! k)"
  have step: "?d k \<le> ?d (Suc k)" if "k + 2 < length infos" for k
    using convex that by simp
  have "?d q \<le> ?d (q + j)" if "q + j + 1 < length infos" for j
    using that
  proof (induction j)
    case 0
    show ?case by simp
  next
    case (Suc j)
    have "?d q \<le> ?d (q + j)" using Suc by simp
    also have "\<dots> \<le> ?d (Suc (q + j))"
      using Suc.prems by (intro step) simp
    finally show ?case by simp
  qed
  from this [of windowSize] assms(2)
  have "?d q \<le> ?d (q + windowSize)" by simp
  then have "timeNanos (infos ! (q + windowSize)) - timeNanos (infos ! q)
      \<le> timeNanos (infos ! (Suc q + windowSize)) - timeNanos (infos ! Suc q)"
    by simp
  then show ?thesis
    by (simp only: window_at_def RawLevelInfo.simps to_ll_fits [OF assms(3)]
        to_ll_fits [OF assms(4)])
qed

lemma windowed_series_wraps:
  "windowed_series
     [\<lparr>arraySizeBytes = 1, timeNanos = - 9223372036854775808\<rparr>,
      \<lparr>arraySizeBytes = 2, timeNanos = - 1\<rparr>,
      \<lparr>arraySizeBytes = 3, timeNanos = 0\<rparr>,
      \<lparr>arraySizeBytes = 4, timeNanos = 1\<rparr>,
      \<lparr>arraySizeBytes = 5, timeNanos = 2\<rparr>,
      \<lparr>arraySizeBytes = 6, timeNanos = 3\<rparr>,
      \<lparr>arraySizeBytes = 7, timeNanos = 4\<rparr>] 3
   = Inr [\<lparr>arraySizeBytes = 4, timeNanos = - 9223372036854775807\<rparr>,
          \<lparr>arraySizeBytes = 5, timeNanos = 3\<rparr>]"
proof -
  have "[0..<7 - 3 - 2] = [0, 1 :: nat]"
    by (simp add: upt_rec)
  then show ?thesis
    by (subst windowed_series_long) (simp_all add: window_at_def to_ll_def)
qed

text \<open>
  Claim C4, amended. For \<open>windowSize \<ge> 2\<close> and every series of at least
  \<open>windowSize + 3\<close> points, \<open>selectCacheSize\<close> returns the size of an element of the
  windowed series whose sum is maximal. Provided that, for every window that is summed,
  the difference between the timing that closes it and the timing \<open>windowSize\<close> points
  before fits in a \<open>long long\<close>: the windowed series is non-decreasing when the first
  differences of the timings are non-decreasing, and all windowed sums are positive when
  the timings are strictly increasing. Without that bound the sums wrap around, as
  \<open>windowed_series_wraps\<close> shows on the strictly increasing timings
  \<open>LLONG_MIN, -1, 0, 1, 2, 3, 4\<close>.
\<close>

theorem selection_on_convex_series:
  assumes "2 \<le> windowSize" "windowSize + 3 \<le> length infos"
  shows "\<exists>windowed m. windowed_series infos windowSize = Inr windowed \<and> m \<in> set windowed \<and>
      selectCacheSize infos windowSize = Inr (arraySizeBytes m) \<and>
      (\<forall>x \<in> set windowed. timeNanos x \<le> timeNanos m) \<and>
      ((\<forall>q. q + windowSize + 2 < length infos \<longrightarrow>
           fits_ll (timeNanos (infos ! (q + windowSize)) - timeNanos (infos ! q))) \<longrightarrow>
         ((\<forall>k. k + 2 < length infos \<longrightarrow>
             timeNanos (infos ! (k + 1)) - timeNanos (infos ! k)
               \<le> timeNanos (infos ! (k + 2)) - timeNanos (infos ! (k + 1)))
           \<longrightarrow> sorted (map timeNanos windowed)) \<and>
         (sorted_wrt (<) (map timeNanos infos) \<longrightarrow> (\<forall>x \<in> set windowed. 0 < timeNanos x)))"
proof -
  let ?n = "length infos"
  let ?w = "map (window_at infos windowSize) [0..<?n - windowSize - 2]"
  have ws: "windowed_series infos windowSize = Inr ?w"
    using assms by (intro windowed_series_long) simp_all
  have ne: "?w \<noteq> []" using assms(2) by simp
  from selectCacheSize_max [OF assms(1) ws ne]
  obtain m where m: "m \<in> set ?w" "selectCacheSize infos windowSize = Inr (arraySizeBytes m)"
    "\<forall>x \<in> set ?w. timeNanos x \<le> timeNanos m"
    by blast
  have srt: "sorted (map timeNanos ?w)"
    if fits: "\<forall>q. q + windowSize + 2 < ?n \<longrightarrow>
           fits_ll (timeNanos (infos ! (q + windowSize)) - timeNanos (infos ! q))"
      and convex: "\<forall>k. k + 2 < ?n \<longrightarrow>
           timeNanos (infos ! (k + 1)) - timeNanos (infos ! k)
             \<le> timeNanos (infos ! (k + 2)) - timeNanos (infos ! (k + 1))"
  proof -
    have "map timeNanos ?w ! q \<le> map timeNanos ?w ! Suc q" if "Suc q < length (map timeNanos ?w)" for q
    proof -
      have q: "Suc q < ?n - windowSize - 2" using that by simp
      then have 1: "q + windowSize + 1 < ?n" by simp
      have "q + windowSize + 2 < ?n" using q by simp
      then have 2: "fits_ll (timeNanos (infos ! (q + windowSize)) - timeNanos (infos ! q))"
        using fits by blast
      have "Suc q + windowSize + 2 < ?n" using q by simp
      then have 3: "fits_ll (timeNanos (infos ! (Suc q + windowSize)) - timeNanos (infos ! Suc q))"
        using fits by blast
      from window_at_mono [OF convex 1 2 3] q show ?thesis by simp
    qed
    then show ?thesis by (simp only: sorted_iff_nth_Suc) blast
  qed
  have pos: "\<forall>x \<in> set ?w. 0 < timeNanos x"
    if fits: "\<forall>q. q + windowSize + 2 < ?n \<longrightarrow>
           fits_ll (timeNanos (infos ! (q + windowSize)) - timeNanos (infos ! q))"
      and inc: "sorted_wrt (<) (map timeNanos infos)"
  proof
    fix x assume "x \<in> set ?w"
    then obtain q where q: "q < ?n - windowSize - 2" "x = window_at infos windowSize q" by auto
    have "q < q + windowSize" "q + windowSize < length (map timeNanos infos)"
      using q(1) assms(1) by simp_all
    from sorted_wrt_nth_less [OF inc this]
    have lt: "map timeNanos infos ! q < map timeNanos infos ! (q + windowSize)" .
    have "q + windowSize + 2 < ?n" using q(1) by simp
    then have "fits_ll (timeNanos (infos ! (q + windowSize)) - timeNanos (infos ! q))"
      using fits by blast
    then have "timeNanos x = timeNanos (infos ! (q + windowSize)) - timeNanos (infos ! q)"
      by (simp only: q(2) window_at_def RawLevelInfo.simps to_ll_fits)
    then show "0 < timeNanos x" using lt q(1) by simp
  qed
  show ?thesis using ws m srt pos by blast
qed

lemma windowed_series_convex:
  "windowed_series convex_series 3 =
     Inr [\<lparr>arraySizeBytes = 32768, timeNanos = 6\<rparr>,
          \<lparr>arraySizeBytes = 40960, timeNanos = 9\<rparr>,
          \<lparr>arraySizeBytes = 49152, timeNanos = 12\<rparr>]"
proof -
  have "[0..<length convex_series - 3 - 2] = [0, 1, 2]"
    by (simp add: convex_series_def upt_rec)
  then show ?thesis
    using windowed_series_long [of 3 convex_series]
    by (simp add: convex_series_def window_at_def to_ll_def)
qed

theorem selection_on_convex_series_witness:
  "(2::nat) \<le> 3 \<and> 3 + 3 \<le> length convex_series \<and>
   fits_ll (timeNanos (convex_series ! 3) - timeNanos (convex_series ! 0)) \<and>
   fits_ll (timeNanos (convex_series ! 4) - timeNanos (convex_series ! 1)) \<and>
   fits_ll (timeNanos (convex_series ! 5) - timeNanos (convex_series ! 2)) \<and>
   sorted_wrt (<) (map timeNanos convex_series) \<and>
   windowed_series convex_series 3 =
     Inr [\<lparr>arraySizeBytes = 32768, timeNanos = 6\<rparr>,
          \<lparr>arraySizeBytes = 40960, timeNanos = 9\<rparr>,
          \<lparr>arraySizeBytes = 49152, timeNanos = 12\<rparr>] \<and>
   sorted (map timeNanos
     [\<lparr>arraySizeBytes = 32768, timeNanos = 6\<rparr>,
      \<lparr>arraySizeBytes = 40960, timeNanos = 9\<rparr>,
      \<lparr>arraySizeBytes = 49152, timeNanos = 12\<rparr>]) \<and>
   selectCacheSize convex_series 3 = Inr 49152"
proof -
  have h: "(2::nat) \<le> 3" "3 + 3 \<le> length convex_series"
    by (simp_all add: convex_series_def)
  have f: "fits_ll (timeNanos (convex_series ! 3) - timeNanos (convex_series ! 0))"
    "fits_ll (timeNanos (convex_series ! 4) - timeNanos (convex_series ! 1))"
    "fits_ll (timeNanos (convex_series ! 5) - timeNanos (convex_series ! 2))"
    by (simp_all add: convex_series_def fits_ll_def)
  have fits: "\<forall>q. q + 3 + 2 < length convex_series \<longrightarrow>
           fits_ll (timeNanos (convex_series ! (q + 3)) - timeNanos (convex_series ! q))"
  proof (intro allI impI)
    fix q :: nat
    assume "q + 3 + 2 < length convex_series"
    then have "q \<in> {0, 1, 2}"
      by (auto simp add: convex_series_def)
    then show "fits_ll (timeNanos (convex_series ! (q + 3)) - timeNanos (convex_series ! q))"
      using f by auto
  qed
  have inc: "sorted_wrt (<) (map timeNanos convex_series)"
    by (simp add: convex_series_def)
  have convex: "\<forall>k. k + 2 < length convex_series \<longrightarrow>
           timeNanos (convex_series ! (k + 1)) - timeNanos (convex_series ! k)
             \<le> timeNanos (convex_series ! (k + 2)) - timeNanos (convex_series ! (k + 1))"
  proof (intro allI impI)
    fix k :: nat
    assume "k + 2 < length convex_series"
    then have "k \<in> {0, 1, 2, 3, 4, 5}"
      by (auto simp add: convex_series_def)
    then show "timeNanos (convex_series ! (k + 1)) - timeNanos (convex_series ! k)
             \<le> timeNanos (convex_series ! (k + 2)) - timeNanos (convex_series ! (k + 1))"
      by (auto simp add: convex_series_def)
  qed
  from selection_on_convex_series [OF h]
  obtain windowed m where ws: "windowed_series convex_series 3 = Inr windowed"
    and m: "m \<in> set windowed" "selectCacheSize convex_series 3 = Inr (arraySizeBytes m)"
      "\<forall>x \<in> set windowed. timeNanos x \<le> timeNanos m"
    and srt: "(\<forall>q. q + 3 + 2 < length convex_series \<longrightarrow>
           fits_ll (timeNanos (convex_series ! (q + 3)) - timeNanos (convex_series ! q))) \<longrightarrow>
         ((\<forall>k. k + 2 < length convex_series \<longrightarrow>
           timeNanos (convex_series ! (k + 1)) - timeNanos (convex_series ! k)
             \<le> timeNanos (convex_series ! (k + 2)) - timeNanos (convex_series ! (k + 1)))
         \<longrightarrow> sorted (map timeNanos windowed)) \<and>
         (sorted_wrt (<) (map timeNanos convex_series) \<longrightarrow> (\<forall>x \<in> set windowed. 0 < timeNanos x))"
    by blast
  have w: "windowed = [\<lparr>arraySizeBytes = 32768, timeNanos = 6\<rparr>,
          \<lparr>arraySizeBytes = 40960, timeNanos = 9\<rparr>,
          \<lparr>arraySizeBytes = 49152, timeNanos = 12\<rparr>]"
    using ws unfolding windowed_series_convex by simp
  have s: "sorted (map timeNanos windowed)"
    using srt fits convex by blast
  have "arraySizeBytes m = 49152"
    using m(1,3) unfolding w by auto
  then show ?thesis
    using h f inc m(2) s windowed_series_convex unfolding w by simp
qed

section \<open>Properties of the probing loop\<close>

lemma probe_stride_bounds:
  assumes "2 \<le> sz"
  shows "0 < max 1 (sz div nTouches)" "max 1 (sz div nTouches) < sz"
proof -
  show "0 < max 1 (sz div nTouches)" by simp
  have "sz div nTouches < sz"
    using assms by (intro div_less_dividend) (simp_all add: nTouches_def)
  then show "max 1 (sz div nTouches) < sz" using assms by simp
qed

lemma tryCacheLevelSizes_loop_exit:
  assumes "\<not> sz \<le> maxSize"
  shows "tryCacheLevelSizes_loop clk t sizeStep maxSize sz probes infos = Some (probes, Inr infos)"
  using assms by (subst tryCacheLevelSizes_loop.simps) simp

lemma tryCacheLevelSizes_loop_fail:
  assumes "sz \<le> maxSize" "mkTestBuffer sz (max 1 (sz div nTouches)) = Some (Inl e)"
  shows "tryCacheLevelSizes_loop clk t sizeStep maxSize sz probes infos
         = Some (probes @ [probe_of sz], Inl e)"
  using assms by (subst tryCacheLevelSizes_loop.simps) (simp add: Let_def probe_of_def)

lemma tryCacheLevelSizes_loop_touch_fail:
  assumes "sz \<le> maxSize" "mkTestBuffer sz (max 1 (sz div nTouches)) = Some (Inr buffer)"
    "touchTestBuffer buffer nTouches = Inl e"
  shows "tryCacheLevelSizes_loop clk t sizeStep maxSize sz probes infos
         = Some (probes @ [probe_of sz], Inl e)"
  using assms by (subst tryCacheLevelSizes_loop.simps) (simp add: Let_def probe_of_def)

lemma tryCacheLevelSizes_loop_round:
  assumes "sz \<le> maxSize" "2 \<le> sz" "sz \<le> vector_max_size"
  shows "tryCacheLevelSizes_loop clk t sizeStep maxSize sz probes infos
         = tryCacheLevelSizes_loop clk (t + 2) sizeStep maxSize (size_t_add sz sizeStep)
             (probes @ [probe_of sz]) (infos @ [info_of clk t sz])"
proof -
  note s = probe_stride_bounds [OF assms(2)]
  have b: "mkTestBuffer sz (max 1 (sz div nTouches)) = Some (Inr (chain sz (max 1 (sz div nTouches))))"
    by (rule mkTestBuffer_chain [OF s assms(3)])
  obtain p where p: "touchTestBuffer (chain sz (max 1 (sz div nTouches))) nTouches = Inr p"
    using touchTestBuffer_chain [OF s] by blast
  show ?thesis
    using assms(1) b p
    by (subst tryCacheLevelSizes_loop.simps) (simp add: Let_def probe_of_def info_of_def)
qed

lemma tryCacheLevelSizes_loop_cases:
  assumes "sz \<le> maxSize" "\<not> (2 \<le> sz \<and> sz \<le> vector_max_size)"
  shows "\<exists>e. tryCacheLevelSizes_loop clk t sizeStep maxSize sz probes infos
         = Some (probes @ [probe_of sz], Inl e)"
proof -
  consider "sz = 0" | "sz = 1" | "vector_max_size < sz" "2 \<le> sz"
    using assms(2) by linarith
  then show ?thesis
  proof cases
    case 1
    then have "mkTestBuffer sz (max 1 (sz div nTouches)) = Some (Inl AssertionFailed)"
      by (simp add: mkTestBuffer_def)
    from tryCacheLevelSizes_loop_fail [OF assms(1) this] show ?thesis by blast
  next
    case 2
    have "mkTestBuffer 1 1 = Some (Inr (replicate 1 Null))"
      by (intro mkTestBuffer_degenerate) (simp_all add: vector_max_size_def)
    then have b: "mkTestBuffer sz (max 1 (sz div nTouches)) = Some (Inr (replicate 1 Null))"
      using 2 by (simp add: nTouches_def)
    have "touchTestBuffer (replicate 1 Null) nTouches = Inl NullDeref"
      by (intro touchTestBuffer_all_null) simp
    from tryCacheLevelSizes_loop_touch_fail [OF assms(1) b this] show ?thesis by blast
  next
    case 3
    then have "mkTestBuffer sz (max 1 (sz div nTouches)) = Some (Inl AllocFailed)"
      by (simp add: mkTestBuffer_def)
    from tryCacheLevelSizes_loop_fail [OF assms(1) this] show ?thesis by blast
  qed
qed

lemma probe_of_ok:
  assumes "0 < sz"
  shows "1 \<le> stride (probe_of sz)" "stride (probe_of sz) \<le> slots (probe_of sz)"
    "touches (probe_of sz) \<le> 1000000"
proof -
  show "1 \<le> stride (probe_of sz)" by (simp add: probe_of_def)
  have "sz div nTouches \<le> sz" by simp
  then show "stride (probe_of sz) \<le> slots (probe_of sz)"
    using assms by (simp add: probe_of_def)
  show "touches (probe_of sz) \<le> 1000000" by (simp add: probe_of_def nTouches_def)
qed

lemma tryCacheLevelSizes_loop_probes:
  assumes "0 < sizeStep" "sizeStep \<le> sz"
    "\<forall>p \<in> set probes. 1 \<le> stride p \<and> stride p \<le> slots p \<and> touches p \<le> 1000000"
  shows "\<exists>probes' r. tryCacheLevelSizes_loop clk t sizeStep maxSize sz probes infos = Some (probes', r) \<and>
           (\<forall>p \<in> set probes'. 1 \<le> stride p \<and> stride p \<le> slots p \<and> touches p \<le> 1000000)"
  using assms(2,3)
proof (induction "maxSize + 1 - sz" arbitrary: sz t probes infos rule: less_induct)
  case less
  have pos: "0 < sz" using assms(1) less.prems(1) by simp
  have ok: "\<forall>p \<in> set (probes @ [probe_of sz]).
      1 \<le> stride p \<and> stride p \<le> slots p \<and> touches p \<le> 1000000"
    using less.prems(2) probe_of_ok [OF pos] by simp
  show ?case
  proof (cases "sz \<le> maxSize")
    case False
    from tryCacheLevelSizes_loop_exit [OF this] less.prems(2) show ?thesis by blast
  next
    case True
    show ?thesis
    proof (cases "2 \<le> sz \<and> sz \<le> vector_max_size")
      case False
      from tryCacheLevelSizes_loop_cases [OF True False] ok show ?thesis by blast
    next
      case in_range: True
      have "sz + sizeStep < 2 ^ 64"
        using in_range less.prems(1) by (simp add: vector_max_size_def)
      then have add: "size_t_add sz sizeStep = sz + sizeStep"
        by (simp add: size_t_add_def)
      have "\<exists>probes' r. tryCacheLevelSizes_loop clk (t + 2) sizeStep maxSize (sz + sizeStep)
               (probes @ [probe_of sz]) (infos @ [info_of clk t sz]) = Some (probes', r) \<and>
           (\<forall>p \<in> set probes'. 1 \<le> stride p \<and> stride p \<le> slots p \<and> touches p \<le> 1000000)"
        using True assms(1) ok by (intro less.hyps) simp_all
      then show ?thesis
        using tryCacheLevelSizes_loop_round [OF True, of clk t sizeStep probes infos] in_range
        by (simp only: add)
    qed
  qed
qed

lemma rounds_Suc:
  assumes "0 < sizeStep" "sz \<le> maxSize"
  shows "rounds maxSize sizeStep sz = Suc (rounds maxSize sizeStep (sz + sizeStep))"
proof -
  have a: "maxSize + sizeStep - sz = (maxSize - sz) + sizeStep"
    using assms(2) by arith
  have b: "maxSize + sizeStep - (sz + sizeStep) = maxSize - sz"
    by arith
  have c: "((maxSize - sz) + sizeStep) div sizeStep = (maxSize - sz) div sizeStep + 1"
    using assms(1) by (intro div_add_self2) simp
  show ?thesis
    by (simp only: rounds_def a b c Suc_eq_plus1)
qed

lemma rounds_0:
  assumes "0 < sizeStep" "\<not> sz \<le> maxSize"
  shows "rounds maxSize sizeStep sz = 0"
proof -
  have "maxSize + sizeStep - sz < sizeStep"
    using assms by arith
  then show ?thesis
    unfolding rounds_def by (rule div_less)
qed

lemma tryCacheLevelSizes_loop_run:
  assumes "2 \<le> sizeStep" "maxSize \<le> vector_max_size" "sizeStep \<le> sz"
  shows "tryCacheLevelSizes_loop clk t sizeStep maxSize sz probes infos =
     Some (probes @ map (\<lambda>k. probe_of (sz + k * sizeStep)) [0..<rounds maxSize sizeStep sz],
           Inr (infos @ map (\<lambda>k. info_of clk (t + 2 * k) (sz + k * sizeStep))
                          [0..<rounds maxSize sizeStep sz]))"
  using assms(3)
proof (induction "maxSize + 1 - sz" arbitrary: sz t probes infos rule: less_induct)
  case less
  have step: "0 < sizeStep" using assms(1) by simp
  show ?case
  proof (cases "sz \<le> maxSize")
    case False
    then show ?thesis
      by (simp add: tryCacheLevelSizes_loop_exit rounds_0 [OF step False])
  next
    case True
    have r: "2 \<le> sz" "sz \<le> vector_max_size"
      using assms(1,2) less.prems True by simp_all
    have "sz + sizeStep < 2 ^ 64"
      using r(2) less.prems by (simp add: vector_max_size_def)
    then have add: "size_t_add sz sizeStep = sz + sizeStep"
      by (simp add: size_t_add_def)
    let ?c = "rounds maxSize sizeStep (sz + sizeStep)"
    have IH: "tryCacheLevelSizes_loop clk (t + 2) sizeStep maxSize (sz + sizeStep)
          (probes @ [probe_of sz]) (infos @ [info_of clk t sz]) =
        Some ((probes @ [probe_of sz]) @ map (\<lambda>k. probe_of (sz + sizeStep + k * sizeStep)) [0..<?c],
           Inr ((infos @ [info_of clk t sz]) @
                map (\<lambda>k. info_of clk (t + 2 + 2 * k) (sz + sizeStep + k * sizeStep)) [0..<?c]))"
      using True step by (intro less.hyps) simp_all
    have e0: "sz + 0 * sizeStep = sz" "t + 2 * 0 = t" by simp_all
    have e1: "sz + Suc k * sizeStep = sz + sizeStep + k * sizeStep" for k by simp
    have e2: "t + 2 * Suc k = t + 2 + 2 * k" for k by simp
    have p: "map (\<lambda>k. probe_of (sz + k * sizeStep)) [0..<Suc ?c]
          = probe_of sz # map (\<lambda>k. probe_of (sz + sizeStep + k * sizeStep)) [0..<?c]"
      by (simp only: map_upt_Suc e0 e1 e2)
    have i: "map (\<lambda>k. info_of clk (t + 2 * k) (sz + k * sizeStep)) [0..<Suc ?c]
          = info_of clk t sz # map (\<lambda>k. info_of clk (t + 2 + 2 * k) (sz + sizeStep + k * sizeStep)) [0..<?c]"
      by (simp only: map_upt_Suc e0 e1 e2)
    show ?thesis
      unfolding rounds_Suc [OF step True] p i
      using tryCacheLevelSizes_loop_round [OF True r, of clk t sizeStep probes infos] IH
      by (simp only: add append_assoc append_Cons append_Nil)
  qed
qed

text \<open>
  Claim C6 says that for every probing range every round builds its buffer with a stride
  between 1 and the slot count of the round. For \<open>minSizeBytes = 4\<close> the slot count of
  the first round is \<open>4 / sizeof(void*) = 0\<close>, and the stride, clamped from below, is 1:
  the round calls \<open>mkTestBuffer(0, 1)\<close>, whose assertion fails.
\<close>

theorem zero_slot_round_counterexample:
  "tryCacheLevelSizes_probed still_clock 0 4 262144 =
     Some ([\<lparr>slots = 0, stride = 1, touches = 1000000\<rparr>], Inl AssertionFailed)"
proof -
  have "mkTestBuffer 0 (max 1 (0 div nTouches)) = Some (Inl AssertionFailed)"
    by (simp add: mkTestBuffer_def)
  from tryCacheLevelSizes_loop_fail [OF _ this, of 32768 still_clock 0 0 "[]" "[]"]
  show ?thesis
    by (simp add: tryCacheLevelSizes_probed_def sizeof_ptr_def probe_of_def nTouches_def)
qed

text \<open>
  Claim C6, amended. For every probing range with \<open>minSizeBytes \<ge> sizeof(void*)\<close> the
  probing loop terminates, and every round it starts calls \<open>mkTestBuffer\<close> with a stride
  between 1 and the slot count of the round and traverses with 1,000,000 touches.
\<close>

theorem probing_strides_within_bounds:
  assumes "sizeof_ptr \<le> minSizeBytes"
  shows "\<exists>probes r. tryCacheLevelSizes_probed clk t minSizeBytes maxSizeBytes = Some (probes, r) \<and>
           (\<forall>p \<in> set probes. 1 \<le> stride p \<and> stride p \<le> slots p \<and> touches p \<le> 1000000)"
proof -
  have "0 < minSizeBytes div sizeof_ptr"
    using assms by (simp add: sizeof_ptr_def div_greater_zero_iff)
  then have "\<exists>probes r. tryCacheLevelSizes_loop clk t (minSizeBytes div sizeof_ptr)
       (maxSizeBytes div sizeof_ptr) (minSizeBytes div sizeof_ptr) [] [] = Some (probes, r) \<and>
           (\<forall>p \<in> set probes. 1 \<le> stride p \<and> stride p \<le> slots p \<and> touches p \<le> 1000000)"
    by (intro tryCacheLevelSizes_loop_probes) simp_all
  then show ?thesis
    by (simp add: tryCacheLevelSizes_probed_def Let_def)
qed

theorem probing_strides_within_bounds_witness:
  "sizeof_ptr \<le> 8192 \<and>
   map_option (\<lambda>r. list_all (\<lambda>p. 1 \<le> stride p \<and> stride p \<le> slots p \<and> touches p \<le> 1000000) (fst r))
     (tryCacheLevelSizes_probed still_clock 0 8192 262144) = Some True"
proof -
  have h: "sizeof_ptr \<le> 8192" by (simp add: sizeof_ptr_def)
  from probing_strides_within_bounds [OF h, of still_clock 0 262144]
  obtain probes r where "tryCacheLevelSizes_probed still_clock 0 8192 262144 = Some (probes, r)"
    "\<forall>p \<in> set probes. 1 \<le> stride p \<and> stride p \<le> slots p \<and> touches p \<le> 1000000"
    by blast
  then show ?thesis
    using h by (simp add: list_all_iff)
qed

lemma selectCacheSize_in_sizes:
  assumes "2 \<le> windowSize" "windowSize + 3 \<le> length infos"
  shows "\<exists>s. selectCacheSize infos windowSize = Inr s \<and> s \<in> set (map arraySizeBytes infos)"
proof -
  let ?n = "length infos"
  let ?w = "map (window_at infos windowSize) [0..<?n - windowSize - 2]"
  have ws: "windowed_series infos windowSize = Inr ?w"
    using assms by (intro windowed_series_long) simp_all
  have ne: "?w \<noteq> []" using assms(2) by simp
  from selectCacheSize_max [OF assms(1) ws ne]
  obtain m where m: "m \<in> set ?w" "selectCacheSize infos windowSize = Inr (arraySizeBytes m)"
    by blast
  from m(1) obtain q where q: "q < ?n - windowSize - 2" "m = window_at infos windowSize q"
    by auto
  have "q + windowSize < ?n" using q(1) by simp
  then have "infos ! (q + windowSize) \<in> set infos" by (rule nth_mem)
  then have "arraySizeBytes m \<in> set (map arraySizeBytes infos)"
    using q(2) by (simp add: window_at_def)
  with m(2) show ?thesis by blast
qed

lemma main_probing_run:
  "tryCacheLevelSizes clk t (8 * KB) (256 * KB)
   = Some (Inr (map (\<lambda>k. info_of clk (t + 2 * k) (1024 + k * 1024)) [0..<32]))"
proof -
  have ms: "(8 * KB) div sizeof_ptr = 1024" "(256 * KB) div sizeof_ptr = 32768"
    by (simp_all add: KB_def sizeof_ptr_def)
  have r: "rounds 32768 1024 1024 = 32"
    by (simp add: rounds_def)
  have h: "(2::nat) \<le> 1024" "(32768::nat) \<le> vector_max_size" "(1024::nat) \<le> 1024"
    by (simp_all add: vector_max_size_def)
  show ?thesis
    using tryCacheLevelSizes_loop_run [OF h, of clk t "[]" "[]"]
    by (simp only: tryCacheLevelSizes_def tryCacheLevelSizes_probed_def Let_def ms r
        option.map snd_conv append_Nil)
qed

lemma main_probing_sizes:
  "map arraySizeBytes (map (\<lambda>k. info_of clk (t + 2 * k) (1024 + k * 1024)) [0..<32])
   = map (\<lambda>k. k * (8 * KB)) [1..<33]"
proof (rule nth_equalityI)
  show "length (map arraySizeBytes (map (\<lambda>k. info_of clk (t + 2 * k) (1024 + k * 1024)) [0..<32]))
        = length (map (\<lambda>k. k * (8 * KB)) [1..<33])"
    by simp
next
  fix i
  assume "i < length (map arraySizeBytes (map (\<lambda>k. info_of clk (t + 2 * k) (1024 + k * 1024)) [0..<32]))"
  then have i: "i < 32" by simp
  then have "(1024 + i * 1024) * 8 < (2::nat) ^ 64" by simp
  then have "size_t_mul (1024 + i * 1024) sizeof_ptr = (1 + i) * (8 * KB)"
    by (simp add: size_t_mul_def sizeof_ptr_def KB_def)
  then show "map arraySizeBytes (map (\<lambda>k. info_of clk (t + 2 * k) (1024 + k * 1024)) [0..<32]) ! i
        = map (\<lambda>k. k * (8 * KB)) [1..<33] ! i"
    using i by (simp add: info_of_def)
qed

text \<open>
  Claim C2 says that with \<open>minSizeBytes = 8 * 1024\<close> and \<open>maxSizeBytes = 256 * 1024\<close> the
  probing yields 33 points. The loop runs over the slot counts 1024, 2048, ..., 32768: one
  point per multiple of 8 KiB from 8 KiB to 256 KiB, which are 32 points.
\<close>

theorem main_probing_has_32_points_counterexample:
  "map_option (map_sum id length) (tryCacheLevelSizes still_clock 0 (8 * KB) (256 * KB))
     = Some (Inr 32) \<and> (32::nat) \<noteq> 33"
  by (simp add: main_probing_run)

text \<open>
  Claim C2, amended. With \<open>minSizeBytes = 8 * 1024\<close> and \<open>maxSizeBytes = 256 * 1024\<close>, and
  whatever the clock returns, \<open>tryCacheLevelSizes\<close> returns exactly one \<open>RawLevelInfo\<close> per
  multiple of 8 KiB from 8 KiB to 256 KiB inclusive, 32 points, and \<open>selectCacheSize\<close>
  with \<open>windowSize = 3\<close> returns the \<open>arraySizeBytes\<close> of one of them.
\<close>

theorem main_probing_and_selection:
  "\<exists>infos. tryCacheLevelSizes clk t (8 * KB) (256 * KB) = Some (Inr infos) \<and>
      length infos = 32 \<and>
      map arraySizeBytes infos = map (\<lambda>k. k * (8 * KB)) [1..<33] \<and>
      (\<exists>s. selectCacheSize infos 3 = Inr s \<and> s \<in> set (map arraySizeBytes infos))"
proof -
  let ?infos = "map (\<lambda>k. info_of clk (t + 2 * k) (1024 + k * 1024)) [0..<32]"
  have len: "length ?infos = 32" by simp
  have "\<exists>s. selectCacheSize ?infos 3 = Inr s \<and> s \<in> set (map arraySizeBytes ?infos)"
    by (rule selectCacheSize_in_sizes) simp_all
  then show ?thesis
    using main_probing_run [of clk t] len main_probing_sizes [of clk t] by blast
qed

theorem main_probing_and_selection_witness:
  "map_option (map_sum id (map arraySizeBytes)) (tryCacheLevelSizes still_clock 0 (8 * KB) (256 * KB))
     = Some (Inr (map (\<lambda>k. k * (8 * KB)) [1..<33]))"
proof -
  from main_probing_and_selection [of still_clock 0]
  obtain infos where "tryCacheLevelSizes still_clock 0 (8 * KB) (256 * KB) = Some (Inr infos)"
    "map arraySizeBytes infos = map (\<lambda>k. k * (8 * KB)) [1..<33]"
    by blast
  then show ?thesis by simp
qed

section \<open>Properties of the Cache-Line-Size Inference\<close>

lemma calcCacheLineSize_loop_exhausted:
  "\<not> step < sz \<Longrightarrow> calcCacheLineSize_loop clk t sz lastMaxJump step = Some (Inr (Exhausted step))"
  by (subst calcCacheLineSize_loop.simps) simp

lemma calcCacheLineSize_loop_iteration:
  assumes "step < sz"
  shows "calcCacheLineSize_loop clk t sz lastMaxJump step =
     (case stride_jump clk t sz step of
        None \<Rightarrow> None
      | Some (Inl e) \<Rightarrow> Some (Inl e)
      | Some (Inr (mx, t')) \<Rightarrow>
          if lastMaxJump \<noteq> LLONG_MAX \<and> mx < ll_div lastMaxJump 10
          then Some (Inr (Dropped step))
          else calcCacheLineSize_loop clk t' sz mx (size_t_mul step 2))"
  using assms
  by (subst calcCacheLineSize_loop.simps)
     (simp add: stride_jump_def split: option.splits sum.splits prod.splits)

lemma stride_jump_total:
  assumes "0 < step" "step < sz"
  shows "\<exists>r. stride_jump clk t sz step = Some r \<and>
           (\<forall>mx t'. r = Inr (mx, t') \<longrightarrow> sz \<le> vector_max_size)"
proof (cases "sz \<le> vector_max_size")
  case True
  have "mkTestBuffer sz step = Some (Inr (chain sz step))"
    by (rule mkTestBuffer_chain [OF assms True])
  then have "\<exists>r. stride_jump clk t sz step = Some r"
    by (simp add: stride_jump_def split: option.splits sum.splits prod.splits)
  with True show ?thesis by blast
next
  case False
  then have "mkTestBuffer sz step = Some (Inl AllocFailed)"
    using assms by (simp add: mkTestBuffer_def)
  then have "stride_jump clk t sz step = Some (Inl AllocFailed)"
    by (simp add: stride_jump_def)
  then show ?thesis by simp
qed

lemma length_diffs_from: "length (diffs_from x xs) = length xs"
  by (induction xs arbitrary: x) simp_all

lemma size_t_mul_small:
  assumes "a * b < 2 ^ 64"
  shows "size_t_mul a b = a * b"
  using assms by (simp add: size_t_mul_def)

lemma calcCacheLineSize_loop_total:
  assumes "0 < step" "step < 2 ^ 61"
  shows "\<exists>r. calcCacheLineSize_loop clk t sz lastMaxJump step = Some r \<and>
           (\<forall>x. r = Inr x \<longrightarrow>
              (\<exists>s. (x = Dropped s \<or> x = Exhausted s) \<and> 0 < s \<and> s < 2 ^ 61))"
  using assms
proof (induction "sz - step" arbitrary: step t lastMaxJump rule: less_induct)
  case less
  show ?case
  proof (cases "step < sz")
    case False
    from calcCacheLineSize_loop_exhausted [OF this] less.prems show ?thesis by blast
  next
    case True
    note it = calcCacheLineSize_loop_iteration [OF True, of clk t lastMaxJump]
    from stride_jump_total [OF less.prems(1) True]
    obtain r where r: "stride_jump clk t sz step = Some r"
      and fit: "\<forall>mx t'. r = Inr (mx, t') \<longrightarrow> sz \<le> vector_max_size"
      by blast
    show ?thesis
    proof (cases r)
      case (Inl e)
      then show ?thesis using it r by simp
    next
      case (Inr mt)
      obtain mx t' where mt: "mt = (mx, t')" by (cases mt) auto
      have "sz \<le> vector_max_size" using fit Inr mt by blast
      then have small: "step * 2 < 2 ^ 61"
        using True by (simp add: vector_max_size_def)
      then have "step * 2 < 2 ^ 64" by simp
      then have mul: "size_t_mul step 2 = step * 2" by (rule size_t_mul_small)
      have it2: "calcCacheLineSize_loop clk t sz lastMaxJump step =
          (if lastMaxJump \<noteq> LLONG_MAX \<and> mx < ll_div lastMaxJump 10
           then Some (Inr (Dropped step))
           else calcCacheLineSize_loop clk t' sz mx (size_t_mul step 2))"
        using it r Inr mt by simp
      show ?thesis
      proof (cases "lastMaxJump \<noteq> LLONG_MAX \<and> mx < ll_div lastMaxJump 10")
        case drop: True
        have "calcCacheLineSize_loop clk t sz lastMaxJump step = Some (Inr (Dropped step))"
          by (simp only: it2 drop if_True simp_thms)
        then show ?thesis using less.prems by blast
      next
        case False
        have "calcCacheLineSize_loop clk t sz lastMaxJump step
              = calcCacheLineSize_loop clk t' sz mx (step * 2)"
          by (simp only: it2 False if_False mul simp_thms)
        moreover have "\<exists>r. calcCacheLineSize_loop clk t' sz mx (step * 2) = Some r \<and>
           (\<forall>x. r = Inr x \<longrightarrow>
              (\<exists>s. (x = Dropped s \<or> x = Exhausted s) \<and> 0 < s \<and> s < 2 ^ 61))"
          using True less.prems(1) small by (intro less.hyps) simp_all
        ultimately show ?thesis by simp
      qed
    qed
  qed
qed

lemma touchTimed_loop_still:
  "touchTimed_loop still_clock buffer n t pos tms = Inr (tms', p, t') \<Longrightarrow>
   tms' = tms @ replicate n 0 \<and> t' = t + 2 * n"
proof (induction n arbitrary: t pos tms)
  case 0
  then show ?case by simp
next
  case (Suc n)
  show ?case
  proof (cases "deref buffer pos")
    case (Inl e)
    with Suc.prems show ?thesis by simp
  next
    case (Inr pos')
    have "to_ll (still_clock (t + 1) - still_clock t) = 0"
      by (simp add: still_clock_def to_ll_0)
    with Suc.prems Inr have
      "touchTimed_loop still_clock buffer n (t + 2) pos' (tms @ [0]) = Inr (tms', p, t')"
      by (simp add: Let_def)
    from Suc.IH [OF this] show ?thesis
      by (simp add: replicate_app_Cons_same)
  qed
qed

lemma touchTestBufferTimed_still_chain:
  assumes "0 < step" "step < sz" "n \<le> vector_max_size"
  shows "\<exists>p. touchTestBufferTimed still_clock t (chain sz step) n
           = Inr ((replicate n 0, p), t + 2 * n)"
proof -
  let ?b = "chain sz step"
  have "map_sum id (\<lambda>r. snd (fst r)) (touchTestBufferTimed still_clock t ?b n)
        = Inr (Slot (cycle_pos sz step ((n + 2) mod cycle_len sz step)))"
    by (simp only: touchTestBufferTimed_pos [OF assms(3)] touchTestBuffer_chain [OF assms(1,2)])
  then obtain r where r: "touchTestBufferTimed still_clock t ?b n = Inr r"
    by (cases "touchTestBufferTimed still_clock t ?b n") auto
  obtain tms p t' where rr: "r = ((tms, p), t')" by (cases r) auto
  let ?p0 = "?b ! size_t_sub (length ?b) 1"
  from r rr obtain pos where "touchTimed_loop still_clock ?b n t ?p0 [] = Inr (tms, pos, t')"
    by (auto simp add: touchTestBufferTimed_def split: if_splits sum.splits)
  from touchTimed_loop_still [OF this] r rr show ?thesis by simp
qed

lemma diffs_from_zeros: "diffs_from 0 (replicate n 0) = replicate n 0"
  by (induction n) (simp_all add: to_ll_0)

lemma max_element_loop_zeros: "max_element_loop (<) (0::int) (replicate n 0) = 0"
  by (induction n) simp_all

lemma stride_jump_still:
  assumes "0 < step" "2 * step \<le> sz" "sz \<le> vector_max_size"
  shows "stride_jump still_clock t sz step = Some (Inr (0, t + 2 * (sz div step)))"
proof -
  have lt: "step < sz" using assms(1,2) by simp
  have "2 \<le> sz div step"
    using assms(1,2) by (simp add: less_eq_div_iff_mult_less_eq)
  then obtain m where m: "sz div step = Suc (Suc m)"
    by (metis Suc_leD Suc_le_D numeral_2_eq_2 Suc_le_mono)
  have b: "mkTestBuffer sz step = Some (Inr (chain sz step))"
    by (rule mkTestBuffer_chain [OF assms(1) lt assms(3)])
  have "sz div step \<le> sz" by simp
  then have n: "sz div step \<le> vector_max_size"
    using assms(3) by (rule le_trans)
  obtain p where p: "touchTestBufferTimed still_clock t (chain sz step) (sz div step)
           = Inr ((replicate (sz div step) 0, p), t + 2 * (sz div step))"
    using touchTestBufferTimed_still_chain [OF assms(1) lt n] by blast
  have d: "first_differences (replicate (sz div step) 0) = Inr (replicate (Suc m) 0)"
    by (simp add: m first_differences_def diffs_from_zeros to_ll_0)
  have x: "max_element (<) (replicate (Suc m) (0::int)) = Some 0"
    by (simp add: max_element_def max_element_loop_zeros)
  show ?thesis
    by (simp only: stride_jump_def b p d x option.case sum.case prod.case)
qed

lemma calcCacheLineSize_loop_still:
  assumes "0 < step" "2 * step \<le> sz" "sz \<le> vector_max_size"
    "lastMaxJump = LLONG_MAX \<or> lastMaxJump = 0"
  shows "calcCacheLineSize_loop still_clock t sz lastMaxJump step
         = calcCacheLineSize_loop still_clock (t + 2 * (sz div step)) sz 0 (step * 2)"
proof -
  have lt: "step < sz" using assms(1,2) by simp
  have "step * 2 < 2 ^ 64"
    using assms(2,3) by (simp add: vector_max_size_def)
  then have mul: "size_t_mul step 2 = step * 2" by (rule size_t_mul_small)
  have nd: "\<not> (lastMaxJump \<noteq> LLONG_MAX \<and> 0 < ll_div lastMaxJump 10)"
    using assms(4) by (auto simp add: ll_div_def)
  show ?thesis
    by (simp only: calcCacheLineSize_loop_iteration [OF lt] stride_jump_still [OF assms(1,2,3)]
        option.case sum.case prod.case nd if_False mul)
qed

lemma calcCacheLineSize_exit_still_64:
  "calcCacheLineSize_exit still_clock 0 64 = Some (Inr (Exhausted 8))"
proof -
  have m: "(8::nat) \<le> vector_max_size" by (simp add: vector_max_size_def)
  have "calcCacheLineSize_loop still_clock 0 8 LLONG_MAX 1
        = calcCacheLineSize_loop still_clock (0 + 2 * (8 div 1)) 8 0 (1 * 2)"
    by (rule calcCacheLineSize_loop_still [OF _ _ m]) simp_all
  also have "\<dots> = calcCacheLineSize_loop still_clock 16 8 0 2" by simp
  also have "\<dots> = calcCacheLineSize_loop still_clock (16 + 2 * (8 div 2)) 8 0 (2 * 2)"
    by (rule calcCacheLineSize_loop_still [OF _ _ m]) simp_all
  also have "\<dots> = calcCacheLineSize_loop still_clock 24 8 0 4" by simp
  also have "\<dots> = calcCacheLineSize_loop still_clock (24 + 2 * (8 div 4)) 8 0 (4 * 2)"
    by (rule calcCacheLineSize_loop_still [OF _ _ m]) simp_all
  also have "\<dots> = calcCacheLineSize_loop still_clock 28 8 0 8" by simp
  also have "\<dots> = Some (Inr (Exhausted 8))"
    by (rule calcCacheLineSize_loop_exhausted) simp
  finally show ?thesis
    by (simp add: calcCacheLineSize_exit_def sizeof_ptr_def)
qed

lemma calcCacheLineSize_still_64:
  "calcCacheLineSize still_clock 0 64 = Some (Inr 64)"
  by (simp add: calcCacheLineSize_def calcCacheLineSize_exit_still_64 exit_bytes_def
      size_t_mul_def sizeof_ptr_def)

lemma exit_bytes_bounds:
  assumes "x = Dropped s \<or> x = Exhausted s" "0 < s" "s < 2 ^ 61"
  shows "exit_bytes x = s * sizeof_ptr" "sizeof_ptr \<le> exit_bytes x"
proof -
  have "s * sizeof_ptr < 2 ^ 64"
    using assms(3) by (simp add: sizeof_ptr_def)
  then have "size_t_mul s sizeof_ptr = s * sizeof_ptr" by (rule size_t_mul_small)
  then show e: "exit_bytes x = s * sizeof_ptr"
    using assms(1) by (auto simp add: exit_bytes_def)
  show "sizeof_ptr \<le> exit_bytes x"
    unfolding e using assms(2) by simp
qed



text \<open>
  Claim C7. For every \<open>cacheSizeBytes\<close> and every clock, \<open>calcCacheLineSize\<close> terminates,
  and a value that it returns is never smaller than \<open>sizeof(void*)\<close>.
\<close>

theorem line_size_at_least_word_size:
  "(\<exists>r. calcCacheLineSize clk t cacheSizeBytes = Some r) \<and>
   (\<forall>v. calcCacheLineSize clk t cacheSizeBytes = Some (Inr v) \<longrightarrow> sizeof_ptr \<le> v)"
proof -
  have "(0::nat) < 1" "(1::nat) < 2 ^ 61" by simp_all
  from calcCacheLineSize_loop_total [OF this, of clk t "cacheSizeBytes div sizeof_ptr" LLONG_MAX]
  obtain r where r: "calcCacheLineSize_exit clk t cacheSizeBytes = Some r"
    and b: "\<forall>x. r = Inr x \<longrightarrow> (\<exists>s. (x = Dropped s \<or> x = Exhausted s) \<and> 0 < s \<and> s < 2 ^ 61)"
    unfolding calcCacheLineSize_exit_def by blast
  have c: "calcCacheLineSize clk t cacheSizeBytes = Some (map_sum id exit_bytes r)"
    by (simp add: calcCacheLineSize_def r)
  have "sizeof_ptr \<le> v" if "calcCacheLineSize clk t cacheSizeBytes = Some (Inr v)" for v
  proof -
    from that c have "map_sum id exit_bytes r = Inr v" by simp
    then obtain x where x: "r = Inr x" "v = exit_bytes x" by (cases r) auto
    from b x(1) obtain s where "x = Dropped s \<or> x = Exhausted s" "0 < s" "s < 2 ^ 61"
      by blast
    from exit_bytes_bounds(2) [OF this] x(2) show ?thesis by simp
  qed
  with c show ?thesis by blast
qed

theorem line_size_at_least_word_size_witness:
  "calcCacheLineSize still_clock 0 64 = Some (Inr 64) \<and> sizeof_ptr \<le> 64"
  using line_size_at_least_word_size [of still_clock 0 64, THEN conjunct2, rule_format,
      OF calcCacheLineSize_still_64]
    calcCacheLineSize_still_64
  by simp




end
